theory Spec2Isabelle
  imports Complex_Main "HOL-Library.Char_ord" "HOL-Library.List_Lexorder"
    "HOL-Library.Product_Lexorder"
begin

section \<open>Event log analysis: analyze-metrics\<close>

subsection \<open>Events and elections\<close>

text \<open>
  One row of the metrics CSV, as \<open>csv.DictReader\<close> yields it: every column is a string.
  The analyzer reads the columns \<open>timestamp\<close>, \<open>event_type\<close> and \<open>node_id\<close>.
\<close>

record event =
  timestamp :: string
  event_type :: string
  node_id :: string

text \<open>
  The dictionary \<open>{'start': event, 'end': None}\<close> built by \<open>get_elections\<close>.
  The key \<open>'end'\<close> is the field \<open>end_ev\<close> (\<open>end\<close> is a keyword here);
  Python's \<open>None\<close> is \<open>None\<close>.
\<close>

record election =
  start :: event
  end_ev :: "event option"

text \<open>
  The loop of \<open>get_elections\<close>. The variable \<open>current_election\<close> is either the empty
  dictionary \<open>{}\<close> (falsy; modelled as \<open>None\<close>) or a dictionary with a start
  (truthy; \<open>Some\<close>). The list \<open>elections\<close> grows at its end by \<open>append\<close>.
\<close>

fun elections_loop :: "election list \<Rightarrow> election option \<Rightarrow> event list \<Rightarrow> election list" where
  "elections_loop elections current_election [] = elections"
| "elections_loop elections current_election (event # rest) =
     (if event_type event = ''ELECTION_START'' then
        elections_loop elections (Some \<lparr>start = event, end_ev = None\<rparr>) rest
      else if event_type event = ''ELECTION_END'' then
        (case current_election of
           Some cur \<Rightarrow> elections_loop (elections @ [cur\<lparr>end_ev := Some event\<rparr>]) None rest
         | None \<Rightarrow> elections_loop elections current_election rest)
      else elections_loop elections current_election rest)"

definition get_elections :: "event list \<Rightarrow> election list" where
  "get_elections events = elections_loop [] None events"

subsection \<open>Election latencies\<close>

text \<open>
  \<open>datetime.fromisoformat\<close> belongs to the Python standard library; it is a parameter
  of the model. It maps a string to a datetime, naive (no UTC offset in the string) or
  aware, here with the instant in microseconds; \<open>None\<close> stands for its
  \<open>ValueError\<close>. Subtracting a naive from an aware datetime (or the reverse) raises
  \<open>TypeError\<close>.
\<close>

datatype py_error = ValueError | TypeError

datatype datetime = Naive int | Aware int

type_synonym isoparser = "string \<Rightarrow> datetime option"

text \<open>\<open>s.replace('Z', '+00:00')\<close>: every occurrence of the character is replaced.\<close>

definition replace_Z :: "string \<Rightarrow> string" where
  "replace_Z s = concat (map (\<lambda>c. if c = CHR ''Z'' then ''+00:00'' else [c]) s)"

text \<open>\<open>end_time - start_time\<close>, a timedelta, in microseconds.\<close>

fun datetime_sub :: "datetime \<Rightarrow> datetime \<Rightarrow> py_error + int" where
  "datetime_sub (Naive a) (Naive b) = Inr (a - b)"
| "datetime_sub (Aware a) (Aware b) = Inr (a - b)"
| "datetime_sub (Naive a) (Aware b) = Inl TypeError"
| "datetime_sub (Aware a) (Naive b) = Inl TypeError"

text \<open>
  The body of the loop of \<open>calculate_election_latencies\<close> for one closed election:
  \<open>(end_time - start_time).total_seconds() * 1000\<close>, as an exact rational number of
  milliseconds (the rounding of the floating-point product is not modelled).
\<close>

definition latency_ms :: "isoparser \<Rightarrow> event \<Rightarrow> event \<Rightarrow> py_error + rat" where
  "latency_ms fromisoformat s e =
     (case fromisoformat (replace_Z (timestamp s)) of
        None \<Rightarrow> Inl ValueError
      | Some start_time \<Rightarrow>
          (case fromisoformat (replace_Z (timestamp e)) of
             None \<Rightarrow> Inl ValueError
           | Some end_time \<Rightarrow>
               (case datetime_sub end_time start_time of
                  Inl err \<Rightarrow> Inl err
                | Inr d \<Rightarrow> Inr (of_int d / 1000))))"

text \<open>
  The loop over \<open>elections\<close>. The test \<open>if election['end']\<close> is the truth value of
  \<open>None\<close> (false) or of a CSV row, a dictionary with at least the column
  \<open>event_type\<close> (true).
\<close>

fun latencies_loop :: "isoparser \<Rightarrow> rat list \<Rightarrow> election list \<Rightarrow> py_error + rat list" where
  "latencies_loop fromisoformat latencies [] = Inr latencies"
| "latencies_loop fromisoformat latencies (election # rest) =
     (case end_ev election of
        None \<Rightarrow> latencies_loop fromisoformat latencies rest
      | Some e \<Rightarrow>
          (case latency_ms fromisoformat (start election) e of
             Inl err \<Rightarrow> Inl err
           | Inr l \<Rightarrow> latencies_loop fromisoformat (latencies @ [l]) rest))"

definition calculate_election_latencies :: "isoparser \<Rightarrow> event list \<Rightarrow> py_error + rat list" where
  "calculate_election_latencies fromisoformat events =
     latencies_loop fromisoformat [] (get_elections events)"

subsection \<open>Event counts and the JSON report\<close>

text \<open>
  \<open>counts[event['event_type']] += 1\<close> on a \<open>defaultdict(int)\<close>. The dictionary keeps
  its keys in insertion order, so it is an association list with distinct keys.
\<close>

fun increment :: "(string \<times> nat) list \<Rightarrow> string \<Rightarrow> (string \<times> nat) list" where
  "increment [] k = [(k, 1)]"
| "increment ((k', c) # counts) k =
     (if k' = k then (k', c + 1) # counts else (k', c) # increment counts k)"

definition get_event_counts :: "event list \<Rightarrow> (string \<times> nat) list" where
  "get_event_counts events = foldl (\<lambda>counts event. increment counts (event_type event)) [] events"

text \<open>\<open>set(e['node_id'] for e in self.events)\<close>\<close>

definition get_node_ids :: "event list \<Rightarrow> string set" where
  "get_node_ids events = set (map node_id events)"

record report =
  event_counts :: "(string \<times> nat) list"
  total_events :: nat
  nodes :: "string list"
  elections :: nat
  election_latencies_ms :: "rat list"
  writes :: nat
  reads :: nat

text \<open>
  The dictionary \<open>report\<close> of \<open>export_json_report\<close>, before it is serialised. Its
  entries are evaluated in order, so an exception of \<open>calculate_election_latencies\<close>
  leaves no report.
\<close>

definition export_json_report :: "isoparser \<Rightarrow> event list \<Rightarrow> py_error + report" where
  "export_json_report fromisoformat events =
     (case calculate_election_latencies fromisoformat events of
        Inl err \<Rightarrow> Inl err
      | Inr latencies \<Rightarrow>
          Inr \<lparr>event_counts = get_event_counts events,
               total_events = length events,
               nodes = sorted_list_of_set (get_node_ids events),
               elections = length (get_elections events),
               election_latencies_ms = latencies,
               writes = length (filter (\<lambda>e. event_type e = ''WRITE_REQUEST'') events),
               reads = length (filter (\<lambda>e. event_type e = ''READ_REQUEST'') events)\<rparr>)"

section \<open>Benchmark statistics: plot\<close>

subsection \<open>Grouped aggregation of the benchmark runs\<close>

text \<open>
  One row of \<open>aggregate.csv\<close> in the data frame, after
  \<open>pd.to_numeric(df['totalRequests'], errors='coerce')\<close>. A missing or unparsable
  number is NaN, here \<open>None\<close>.
\<close>

record run =
  scenario :: string
  totalRequests :: "rat option"
  throughput :: "real option"
  avgLatencyMs :: "real option"
  p99LatencyMs :: "real option"

text \<open>
  The aggregations \<open>'count'\<close>, \<open>'mean'\<close> and \<open>'std'\<close> of pandas (library code): each
  skips the NaN entries of the column. \<open>'std'\<close> is called without argument, so with
  \<open>ddof=1\<close>: the sum of the squared deviations from the mean is divided by the number of
  values minus one, and the result is NaN when fewer than two values remain. The mean of
  no value is NaN.
\<close>

definition dropna :: "'a option list \<Rightarrow> 'a list" where
  "dropna col = List.map_filter (\<lambda>v. v) col"

definition pd_count :: "real option list \<Rightarrow> nat" where
  "pd_count col = length (dropna col)"

definition pd_mean :: "real option list \<Rightarrow> real option" where
  "pd_mean col =
     (let vals = dropna col in
      if vals = [] then None else Some (sum_list vals / real (length vals)))"

definition pd_std :: "real option list \<Rightarrow> real option" where
  "pd_std col =
     (let vals = dropna col; ddof = 1 in
      if length vals \<le> ddof then None
      else
        let m = sum_list vals / real (length vals) in
        Some (sqrt (sum_list (map (\<lambda>x. (x - m)\<^sup>2) vals) / real (length vals - ddof))))"

text \<open>
  \<open>df.groupby(['scenario','totalRequests'])\<close>: the keys are the distinct pairs of the
  rows, in ascending order; a row whose key has a NaN is in no group.
\<close>

definition group_keys :: "run list \<Rightarrow> (string \<times> rat) list" where
  "group_keys df =
     sort (remdups (List.map_filter
       (\<lambda>r. map_option (\<lambda>t. (scenario r, t)) (totalRequests r)) df))"

definition group_rows :: "run list \<Rightarrow> string \<times> rat \<Rightarrow> run list" where
  "group_rows df key =
     filter (\<lambda>r. scenario r = fst key \<and> totalRequests r = Some (snd key)) df"

text \<open>
  The lambda of \<open>agg.apply\<close>, the same in \<open>plot_throughput_vs_requests\<close> and in
  \<open>write_results_md\<close>:
  \<^verbatim>\<open>(stats.t.ppf(0.975, r['n']-1) * r['std_throughput'] / (r['n']**0.5)) if r['n']>1 else 0.0\<close>
  The quantile function \<open>stats.t.ppf\<close> of SciPy's Student-t distribution is a parameter
  of the model. A NaN operand makes the product NaN.
\<close>

definition ci95_of :: "(real \<Rightarrow> real \<Rightarrow> real) \<Rightarrow> nat \<Rightarrow> real option \<Rightarrow> real option" where
  "ci95_of t_ppf n std =
     (if n > 1 then
        (case std of
           None \<Rightarrow> None
         | Some s \<Rightarrow> Some (t_ppf 0.975 (real n - 1) * s / sqrt (real n)))
      else Some 0)"

text \<open>
  The table \<open>agg\<close> of \<open>plot_throughput_vs_requests\<close>, one row per group; its column
  \<open>n\<close> is the field \<open>n_count\<close>. The function plots \<open>mean_throughput\<close> with error bars
  \<open>ci95\<close>.
\<close>

record agg_row =
  agg_scenario :: string
  agg_totalRequests :: rat
  mean_throughput :: "real option"
  std_throughput :: "real option"
  n_count :: nat
  ci95 :: "real option"

definition agg_group :: "(real \<Rightarrow> real \<Rightarrow> real) \<Rightarrow> run list \<Rightarrow> string \<times> rat \<Rightarrow> agg_row" where
  "agg_group t_ppf df key =
     (let col = map throughput (group_rows df key) in
      \<lparr>agg_scenario = fst key,
       agg_totalRequests = snd key,
       mean_throughput = pd_mean col,
       std_throughput = pd_std col,
       n_count = pd_count col,
       ci95 = ci95_of t_ppf (pd_count col) (pd_std col)\<rparr>)"

definition plot_throughput_vs_requests :: "(real \<Rightarrow> real \<Rightarrow> real) \<Rightarrow> run list \<Rightarrow> agg_row list" where
  "plot_throughput_vs_requests t_ppf df = map (agg_group t_ppf df) (group_keys df)"

text \<open>The table \<open>grouped\<close> that \<open>write_results_md\<close> writes to \<open>summary.csv\<close>.\<close>

record summary_row =
  sum_scenario :: string
  sum_totalRequests :: rat
  runs :: nat
  throughput_mean :: "real option"
  throughput_std :: "real option"
  latency_mean :: "real option"
  latency_std :: "real option"
  p99_mean :: "real option"
  sum_ci95 :: "real option"

definition summary_group :: "(real \<Rightarrow> real \<Rightarrow> real) \<Rightarrow> run list \<Rightarrow> string \<times> rat \<Rightarrow> summary_row" where
  "summary_group t_ppf df key =
     (let g = group_rows df key in
      \<lparr>sum_scenario = fst key,
       sum_totalRequests = snd key,
       runs = pd_count (map throughput g),
       throughput_mean = pd_mean (map throughput g),
       throughput_std = pd_std (map throughput g),
       latency_mean = pd_mean (map avgLatencyMs g),
       latency_std = pd_std (map avgLatencyMs g),
       p99_mean = pd_mean (map p99LatencyMs g),
       sum_ci95 = ci95_of t_ppf (pd_count (map throughput g)) (pd_std (map throughput g))\<rparr>)"

definition write_results_md :: "(real \<Rightarrow> real \<Rightarrow> real) \<Rightarrow> run list \<Rightarrow> summary_row list" where
  "write_results_md t_ppf df = map (summary_group t_ppf df) (group_keys df)"

subsection \<open>Percentiles of the merged latency samples\<close>

text \<open>
  \<open>np.percentile(a, q)\<close> of NumPy (library code), with its default method
  \<open>'linear'\<close>, in exact rational arithmetic: the array is sorted, the virtual index is
  \<open>(n - 1) * (q / 100)\<close>, the previous index is its floor and the next index one more,
  both replaced by \<open>-1\<close> (the last element) when the virtual index reaches \<open>n - 1\<close>, and
  the result interpolates the two elements with weight \<open>gamma\<close>. \<open>None\<close> stands for no
  value: \<open>q\<close> outside \<open>[0, 100]\<close> raises, and an empty array has no percentile (a column
  read by \<open>pd.read_csv\<close> is never empty).
\<close>

definition py_index :: "'a list \<Rightarrow> int \<Rightarrow> 'a" where
  "py_index arr i = (if i < 0 then arr ! nat (int (length arr) + i) else arr ! nat i)"

definition lerp :: "rat \<Rightarrow> rat \<Rightarrow> rat \<Rightarrow> rat" where
  "lerp a b t = (if 1 / 2 \<le> t then b - (b - a) * (1 - t) else a + (b - a) * t)"

definition np_percentile :: "rat list \<Rightarrow> rat \<Rightarrow> rat option" where
  "np_percentile a q =
     (if a = [] \<or> q < 0 \<or> 100 < q then None
      else
        let arr = sort a;
            n = int (length arr);
            virtual_index = of_int (n - 1) * (q / 100);
            above = (of_int (n - 1) \<le> virtual_index);
            previous_index = (if above then - 1 else \<lfloor>virtual_index\<rfloor>);
            next_index = (if above then - 1 else \<lfloor>virtual_index\<rfloor> + 1);
            gamma = virtual_index - of_int previous_index
        in Some (lerp (py_index arr previous_index) (py_index arr next_index) gamma))"

text \<open>
  \<open>round(p, 3)\<close> of a NumPy float: to three decimals, a tie going to the even
  neighbour.
\<close>

definition rint :: "rat \<Rightarrow> int" where
  "rint x =
     (let f = \<lfloor>x\<rfloor>; d = x - of_int f in
      if d < 1 / 2 then f else if 1 / 2 < d then f + 1 else if even f then f else f + 1)"

definition round3 :: "rat \<Rightarrow> rat" where
  "round3 x = of_int (rint (x * 1000)) / 1000"

text \<open>\<open>s.split(sep)\<close> for a separator of one character, and \<open>os.path.basename\<close>.\<close>

fun split_on :: "char \<Rightarrow> string \<Rightarrow> string list" where
  "split_on sep [] = [[]]"
| "split_on sep (c # s) =
     (if c = sep then [] # split_on sep s
      else (case split_on sep s of
              [] \<Rightarrow> [[c]]
            | part # parts \<Rightarrow> (c # part) # parts))"

definition basename :: "string \<Rightarrow> string" where
  "basename path = last (split_on CHR ''/'' path)"

text \<open>
  The dictionaries \<open>groups\<close> and \<open>by_req\<close> keep their keys in insertion order; they are
  association lists with distinct keys. \<open>d.setdefault(k, []).append(v)\<close> and
  \<open>d.setdefault(k, []).extend(vs)\<close>:
\<close>

fun setdefault_extend :: "('k \<times> 'v list) list \<Rightarrow> 'k \<Rightarrow> 'v list \<Rightarrow> ('k \<times> 'v list) list" where
  "setdefault_extend [] k vs = [(k, vs)]"
| "setdefault_extend ((k', old) # d) k vs =
     (if k' = k then (k', old @ vs) # d else (k', old) # setdefault_extend d k vs)"

definition setdefault_append :: "('k \<times> 'v list) list \<Rightarrow> 'k \<Rightarrow> 'v \<Rightarrow> ('k \<times> 'v list) list" where
  "setdefault_append d k v = setdefault_extend d k [v]"

text \<open>The first loop of \<open>plot_latency_cdf\<close>: the paths grouped under \<open>scenario_req\<close>.\<close>

definition group_step :: "(string \<times> string list) list \<Rightarrow> string \<Rightarrow> (string \<times> string list) list" where
  "group_step groups path =
     (let base = basename path; parts = split_on CHR ''_'' base in
      if length parts < 4 then groups
      else
        let scenario = parts ! 0; req = parts ! 1; key = scenario @ ''_'' @ req in
        setdefault_append groups key path)"

definition group_paths :: "string list \<Rightarrow> (string \<times> string list) list" where
  "group_paths lat_csv_paths = foldl group_step [] lat_csv_paths"

text \<open>
  The second loop: \<open>by_req.setdefault(req, {}).setdefault(scenario, []).extend(files)\<close>.
  The unpacking \<open>scenario, req = key.split('_')\<close> raises \<open>ValueError\<close> unless the key has
  exactly two parts (\<open>UnpackError\<close>); \<open>ReadError\<close> is an exception of reading a file.
\<close>

datatype plot_error = UnpackError | ReadError

type_synonym by_req = "(string \<times> (string \<times> string list) list) list"

fun by_req_extend :: "by_req \<Rightarrow> string \<Rightarrow> string \<Rightarrow> string list \<Rightarrow> by_req" where
  "by_req_extend [] req scen files = [(req, setdefault_extend [] scen files)]"
| "by_req_extend ((r, scen_map) # d) req scen files =
     (if r = req then (r, setdefault_extend scen_map scen files) # d
      else (r, scen_map) # by_req_extend d req scen files)"

fun regroup :: "by_req \<Rightarrow> (string \<times> string list) list \<Rightarrow> plot_error + by_req" where
  "regroup by_req [] = Inr by_req"
| "regroup by_req ((key, files) # groups) =
     (case split_on CHR ''_'' key of
        [scen, req] \<Rightarrow> regroup (by_req_extend by_req req scen files) groups
      | _ \<Rightarrow> Inl UnpackError)"

text \<open>
  One row of the percentile table. The key \<open>'scenario'\<close> of the row is the field
  \<open>row_scenario\<close>.
\<close>

record percentile_row =
  row_scenario :: string
  request_group :: string
  p50_ms :: "rat option"
  p90_ms :: "rat option"
  p95_ms :: "rat option"
  p99_ms :: "rat option"

text \<open>
  Reading one latency file,
  \<^verbatim>\<open>pd.read_csv(f, header=None).iloc[:,1].astype(float).values\<close>, is the parameter
  \<open>read\<close>: the second column of the file, or \<open>None\<close> when the expression raises.
  The body of the loop over the scenarios of one request size: the files that raise are
  skipped, the others are concatenated.
\<close>

definition scenario_row ::
  "(string \<Rightarrow> rat list option) \<Rightarrow> string \<Rightarrow> string \<Rightarrow> string list \<Rightarrow> percentile_row option" where
  "scenario_row read req scen files =
     (let all_vals = List.map_filter read files in
      if all_vals = [] then None
      else
        let vals_concat = concat all_vals in
        Some \<lparr>row_scenario = scen,
              request_group = req,
              p50_ms = map_option round3 (np_percentile vals_concat 50),
              p90_ms = map_option round3 (np_percentile vals_concat 90),
              p95_ms = map_option round3 (np_percentile vals_concat 95),
              p99_ms = map_option round3 (np_percentile vals_concat 99)\<rparr>)"

text \<open>
  The upper bound of the tail plot: every file of the request size is read again, outside
  any \<open>try\<close>, so a file that cannot be read raises here.
\<close>

fun read_all :: "(string \<Rightarrow> rat list option) \<Rightarrow> string list \<Rightarrow> plot_error + rat list" where
  "read_all read [] = Inr []"
| "read_all read (f # files) =
     (case read f of
        None \<Rightarrow> Inl ReadError
      | Some vals \<Rightarrow>
          (case read_all read files of Inl err \<Rightarrow> Inl err | Inr rest \<Rightarrow> Inr (vals @ rest)))"

definition tail_xmax ::
  "(string \<Rightarrow> rat list option) \<Rightarrow> (string \<times> string list) list \<Rightarrow> plot_error + rat option" where
  "tail_xmax read scen_map =
     (case read_all read (concat (map snd scen_map)) of
        Inl err \<Rightarrow> Inl err
      | Inr all_vals_all \<Rightarrow> Inr (np_percentile all_vals_all (999 / 10)))"

text \<open>
  The loop over the request sizes. It returns the value of the list \<open>percentiles_rows\<close>
  when it ends, and the exception that ended it, if any: the rows of a request size are
  appended before its tail plot reads the files again.
\<close>

fun req_loop ::
  "(string \<Rightarrow> rat list option) \<Rightarrow> percentile_row list \<Rightarrow> by_req
    \<Rightarrow> percentile_row list \<times> plot_error option" where
  "req_loop read percentiles_rows [] = (percentiles_rows, None)"
| "req_loop read percentiles_rows ((req, scen_map) # by_req) =
     (let rows = List.map_filter (\<lambda>(scen, files). scenario_row read req scen files) scen_map in
      case tail_xmax read scen_map of
        Inl err \<Rightarrow> (percentiles_rows @ rows, Some err)
      | Inr xmax \<Rightarrow> req_loop read (percentiles_rows @ rows) by_req)"

text \<open>\<open>drop_duplicates\<close> keeps the first of equal rows.\<close>

fun drop_duplicates :: "'a list \<Rightarrow> 'a list" where
  "drop_duplicates [] = []"
| "drop_duplicates (x # xs) = x # drop_duplicates (filter (\<lambda>y. y \<noteq> x) xs)"

text \<open>
  \<open>plot_latency_cdf\<close>: the percentile table it writes, or the exception it raises (the
  rows computed so far are then lost).
\<close>

definition plot_latency_cdf ::
  "(string \<Rightarrow> rat list option) \<Rightarrow> string list \<Rightarrow> plot_error + percentile_row list" where
  "plot_latency_cdf read lat_csv_paths =
     (case regroup [] (group_paths lat_csv_paths) of
        Inl err \<Rightarrow> Inl err
      | Inr by_req \<Rightarrow>
          (case req_loop read [] by_req of
             (percentiles_rows, Some err) \<Rightarrow> Inl err
           | (percentiles_rows, None) \<Rightarrow> Inr (drop_duplicates percentiles_rows)))"

section \<open>Notions used to state the properties, and sample inputs\<close>

subsection \<open>Event streams\<close>

text \<open>The events that \<open>get_elections\<close> reacts to.\<close>

definition is_election_event :: "event \<Rightarrow> bool" where
  "is_election_event e \<longleftrightarrow>
     event_type e = ''ELECTION_START'' \<or> event_type e = ''ELECTION_END''"

text \<open>The value of \<open>current_election\<close> when the loop of \<open>get_elections\<close> ends.\<close>

fun current_after :: "election option \<Rightarrow> event list \<Rightarrow> election option" where
  "current_after cur [] = cur"
| "current_after cur (e # evs) =
     (if event_type e = ''ELECTION_START'' then
        current_after (Some \<lparr>start = e, end_ev = None\<rparr>) evs
      else if event_type e = ''ELECTION_END'' then current_after None evs
      else current_after cur evs)"

text \<open>
  Order of two datetimes as Python compares them (a naive and an aware datetime are not
  comparable), and of two events by their parsed timestamps.
\<close>

fun datetime_le :: "datetime \<Rightarrow> datetime \<Rightarrow> bool" where
  "datetime_le (Naive a) (Naive b) \<longleftrightarrow> a \<le> b"
| "datetime_le (Aware a) (Aware b) \<longleftrightarrow> a \<le> b"
| "datetime_le (Naive a) (Aware b) \<longleftrightarrow> False"
| "datetime_le (Aware a) (Naive b) \<longleftrightarrow> False"

definition ts_le :: "isoparser \<Rightarrow> event \<Rightarrow> event \<Rightarrow> bool" where
  "ts_le fromisoformat a b =
     (case fromisoformat (replace_Z (timestamp a)) of
        None \<Rightarrow> False
      | Some x \<Rightarrow>
          (case fromisoformat (replace_Z (timestamp b)) of
             None \<Rightarrow> False
           | Some y \<Rightarrow> datetime_le x y))"

text \<open>The timestamp of the event parses to a datetime with a UTC offset.\<close>

definition parses :: "isoparser \<Rightarrow> event \<Rightarrow> bool" where
  "parses fromisoformat e =
     (case fromisoformat (replace_Z (timestamp e)) of
        None \<Rightarrow> False
      | Some (Naive x) \<Rightarrow> False
      | Some (Aware x) \<Rightarrow> True)"

subsection \<open>Sample event streams\<close>

text \<open>
  Three values of \<open>datetime.fromisoformat\<close>: microseconds since the epoch of
  2024-01-01 00:00:00, 00:00:05 and 00:00:10 UTC.
\<close>

definition sample_fromisoformat :: isoparser where
  "sample_fromisoformat = map_of
     [(''2024-01-01T00:00:00+00:00'', Aware 1704067200000000),
      (''2024-01-01T00:00:05+00:00'', Aware 1704067205000000),
      (''2024-01-01T00:00:10+00:00'', Aware 1704067210000000)]"

definition mk_event :: "string \<Rightarrow> string \<Rightarrow> event" where
  "mk_event ts ty = \<lparr>timestamp = ts, event_type = ty, node_id = ''8080''\<rparr>"

definition ordered_events :: "event list" where
  "ordered_events =
     [mk_event ''2024-01-01T00:00:00Z'' ''ELECTION_START'',
      mk_event ''2024-01-01T00:00:05Z'' ''TERM_CHANGE'',
      mk_event ''2024-01-01T00:00:10Z'' ''ELECTION_END'']"

definition reversed_events :: "event list" where
  "reversed_events =
     [mk_event ''2024-01-01T00:00:10Z'' ''ELECTION_START'',
      mk_event ''2024-01-01T00:00:05Z'' ''ELECTION_END'']"

definition nonpositive_events :: "event list" where
  "nonpositive_events =
     [mk_event ''2024-01-01T00:00:05Z'' ''ELECTION_START'',
      mk_event ''2024-01-01T00:00:05Z'' ''ELECTION_END'',
      mk_event ''2024-01-01T00:00:10Z'' ''ELECTION_START'',
      mk_event ''2024-01-01T00:00:00Z'' ''ELECTION_END'']"

definition abandoned_events :: "event list" where
  "abandoned_events =
     [mk_event ''2024-01-01T00:00:00Z'' ''ELECTION_START'',
      mk_event ''2024-01-01T00:00:05Z'' ''ELECTION_START'',
      mk_event ''2024-01-01T00:00:10Z'' ''ELECTION_END'']"

subsection \<open>Benchmark statistics\<close>

text \<open>
  The unbiased (n - 1) sample estimator of the standard deviation: it has no value for
  fewer than two values; for two or more it is non-negative, and its square times
  \<open>n - 1\<close> is the sum of the squared deviations from the mean (also written as the sum
  of the squares minus \<open>n\<close> times the squared mean).
\<close>

definition unbiased_std :: "real list \<Rightarrow> real option \<Rightarrow> bool" where
  "unbiased_std vals std =
     (case std of
        None \<Rightarrow> length vals < 2
      | Some s \<Rightarrow>
          2 \<le> length vals \<and> 0 \<le> s
          \<and> s\<^sup>2 * real (length vals - 1)
              = sum_list (map (\<lambda>x. (x - sum_list vals / real (length vals))\<^sup>2) vals)
          \<and> s\<^sup>2 * real (length vals - 1)
              = sum_list (map (\<lambda>x. x\<^sup>2) vals) - (sum_list vals)\<^sup>2 / real (length vals))"

text \<open>
  The percentile in the words of the specification: for a sorted array of length \<open>n\<close>,
  the rank is \<open>p / 100 * (n - 1)\<close>, and the result interpolates between the elements at
  the floor and at the ceiling of the rank.
\<close>

definition spec_percentile :: "rat list \<Rightarrow> rat \<Rightarrow> rat" where
  "spec_percentile sorted_arr p =
     (let n = length sorted_arr;
          rank = p / 100 * of_nat (n - 1);
          lo = nat \<lfloor>rank\<rfloor>;
          hi = nat \<lceil>rank\<rceil>
      in sorted_arr ! lo + (rank - of_int \<lfloor>rank\<rfloor>) * (sorted_arr ! hi - sorted_arr ! lo))"

text \<open>
  The grouping key of a latency file and the files of one group, in the order of the
  input.
\<close>

definition group_key :: "string \<Rightarrow> (string \<times> string) option" where
  "group_key path =
     (let parts = split_on CHR ''_'' (basename path) in
      if length parts < 4 then None else Some (parts ! 0, parts ! 1))"

definition files_of :: "string list \<Rightarrow> string \<Rightarrow> string \<Rightarrow> string list" where
  "files_of paths scen req = filter (\<lambda>p. group_key p = Some (scen, req)) paths"

text \<open>
  The row of a group in the words of the claim: the values of the files of the group that
  were read are merged into one array, and the four percentiles are those of the merged
  array.
\<close>

definition merged_row ::
  "(string \<Rightarrow> rat list option) \<Rightarrow> string \<Rightarrow> string \<Rightarrow> string list \<Rightarrow> percentile_row" where
  "merged_row read req scen files =
     (let merged = concat (List.map_filter read files) in
      \<lparr>row_scenario = scen,
       request_group = req,
       p50_ms = map_option round3 (np_percentile merged 50),
       p90_ms = map_option round3 (np_percentile merged 90),
       p95_ms = map_option round3 (np_percentile merged 95),
       p99_ms = map_option round3 (np_percentile merged 99)\<rparr>)"

text \<open>
  The rows of one request size: one merged row for every scenario with a file that was
  read. A request size is readable when every file of it can be read. The request sizes
  that the loop reaches: the readable ones at the front and the first one that is not.
\<close>

definition rows_of ::
  "(string \<Rightarrow> rat list option) \<Rightarrow> string \<times> (string \<times> string list) list \<Rightarrow> percentile_row list" where
  "rows_of read entry =
     List.map_filter
       (\<lambda>sf. if list_all (\<lambda>f. read f = None) (snd sf) then None
             else Some (merged_row read (fst entry) (fst sf) (snd sf)))
       (snd entry)"

definition readable ::
  "(string \<Rightarrow> rat list option) \<Rightarrow> string \<times> (string \<times> string list) list \<Rightarrow> bool" where
  "readable read entry = list_all (\<lambda>sf. list_all (\<lambda>f. read f \<noteq> None) (snd sf)) (snd entry)"

definition reached :: "(string \<Rightarrow> rat list option) \<Rightarrow> by_req \<Rightarrow> by_req" where
  "reached read d = takeWhile (readable read) d @ take 1 (dropWhile (readable read) d)"

text \<open>
  The key string of the first grouping, the lookup in the nested dictionary \<open>by_req\<close>,
  the distinctness of its keys, and its pairs of keys.
\<close>

definition key_of :: "string \<times> string \<Rightarrow> string" where
  "key_of sr = fst sr @ ''_'' @ snd sr"

definition nested_lookup :: "by_req \<Rightarrow> string \<Rightarrow> string \<Rightarrow> string list option" where
  "nested_lookup d req scen =
     (case map_of d req of None \<Rightarrow> None | Some scen_map \<Rightarrow> map_of scen_map scen)"

definition by_req_ok :: "by_req \<Rightarrow> bool" where
  "by_req_ok d \<longleftrightarrow> distinct (map fst d) \<and> (\<forall>(r, m)\<in>set d. distinct (map fst m))"

definition keys2 :: "by_req \<Rightarrow> (string \<times> string) set" where
  "keys2 d = {(r, s). \<exists>m. (r, m) \<in> set d \<and> s \<in> fst ` set m}"

subsection \<open>Sample benchmark data\<close>

text \<open>
  Critical values of the Student-t distribution at 0.975 for one to four degrees of
  freedom, as the usual tables print them.
\<close>

definition sample_t_ppf :: "real \<Rightarrow> real \<Rightarrow> real" where
  "sample_t_ppf p df =
     (if df = 1 then 12.706 else if df = 2 then 4.303 else if df = 3 then 3.182 else 2.776)"

definition mk_run :: "string \<Rightarrow> rat \<Rightarrow> real \<Rightarrow> run" where
  "mk_run s t x =
     \<lparr>scenario = s, totalRequests = Some t, throughput = Some x,
      avgLatencyMs = Some 2, p99LatencyMs = Some 9\<rparr>"

definition mixed_runs :: "run list" where
  "mixed_runs = map (mk_run ''baseline'' 100) [90, 90, 110, 110, 100] @ [mk_run ''chaos'' 100 250]"

definition two_runs :: "run list" where
  "two_runs = map (mk_run ''baseline'' 100) [90, 110]"

definition one_run :: "run list" where
  "one_run = [mk_run ''baseline'' 100 250]"

text \<open>
  Latency files: two of one group, of three values each, one of another request size,
  and a file whose name has no key. \<open>sample_read\<close> reads all of them,
  \<open>partial_read\<close> cannot read the second file.
\<close>

definition sample_paths :: "string list" where
  "sample_paths =
     [''results/baseline_req100_dur30_rep1_latencies.csv'',
      ''results/baseline_req100_dur30_rep2_latencies.csv'',
      ''results/baseline_req500_dur30_rep1_latencies.csv'',
      ''results/notes_latencies.csv'']"

definition sample_read :: "string \<Rightarrow> rat list option" where
  "sample_read = map_of
     [(''results/baseline_req100_dur30_rep1_latencies.csv'', [1, 2, 3]),
      (''results/baseline_req100_dur30_rep2_latencies.csv'', [10, 20, 30]),
      (''results/baseline_req500_dur30_rep1_latencies.csv'', [4, 5, 6]),
      (''results/notes_latencies.csv'', [7])]"

definition partial_read :: "string \<Rightarrow> rat list option" where
  "partial_read = map_of
     [(''results/baseline_req100_dur30_rep1_latencies.csv'', [1, 2, 3]),
      (''results/baseline_req500_dur30_rep1_latencies.csv'', [4, 5, 6])]"

text \<open>The second grouping of \<open>sample_paths\<close>.\<close>

definition sample_by_req :: by_req where
  "sample_by_req =
     [(''req100'', [(''baseline'',
         [''results/baseline_req100_dur30_rep1_latencies.csv'',
          ''results/baseline_req100_dur30_rep2_latencies.csv''])]),
      (''req500'', [(''baseline'',
         [''results/baseline_req500_dur30_rep1_latencies.csv''])])]"

section \<open>Properties of the event log analysis\<close>

subsection \<open>The loop of get-elections\<close>

lemma elections_loop_acc:
  "elections_loop acc cur evs = acc @ elections_loop [] cur evs"
proof (induction evs arbitrary: acc cur)
  case Nil
  then show ?case by simp
next
  case (Cons e evs)
  show ?case
  proof (cases cur)
    case None
    then show ?thesis using Cons.IH [of acc] by simp
  next
    case (Some c)
    then show ?thesis
      using Cons.IH [of "acc @ [c\<lparr>end_ev := Some e\<rparr>]" None]
        Cons.IH [of "[c\<lparr>end_ev := Some e\<rparr>]" None] Cons.IH [of acc]
      by simp
  qed
qed

lemma elections_loop_Cons:
  "elections_loop [] cur (e # evs) =
     (if event_type e = ''ELECTION_START'' then
        elections_loop [] (Some \<lparr>start = e, end_ev = None\<rparr>) evs
      else if event_type e = ''ELECTION_END'' then
        (case cur of
           Some c \<Rightarrow> c\<lparr>end_ev := Some e\<rparr> # elections_loop [] None evs
         | None \<Rightarrow> elections_loop [] None evs)
      else elections_loop [] cur evs)"
  using elections_loop_acc [of "[c\<lparr>end_ev := Some e\<rparr>]" None evs for c]
  by (simp split: option.splits)

lemma elections_loop_filter:
  "elections_loop acc cur (filter is_election_event evs) = elections_loop acc cur evs"
  by (induction evs arbitrary: acc cur) (auto simp: is_election_event_def split: option.splits)

lemma elections_loop_closed:
  "el \<in> set (elections_loop [] cur evs) \<Longrightarrow> end_ev el \<noteq> None"
proof (induction evs arbitrary: cur)
  case Nil
  then show ?case by simp
next
  case (Cons e evs)
  then show ?case
    by (auto simp: elections_loop_Cons simp del: elections_loop.simps(2)
        split: if_splits option.splits)
qed

lemma elections_loop_count:
  "length (elections_loop [] cur evs)
     \<le> (if cur = None then 0 else 1)
       + length (filter (\<lambda>e. event_type e = ''ELECTION_START'') evs)"
proof (induction evs arbitrary: cur)
  case Nil
  then show ?case by simp
next
  case (Cons e evs)
  show ?case
    using Cons.IH [of "Some \<lparr>start = e, end_ev = None\<rparr>"] Cons.IH [of cur] Cons.IH [of None]
    by (auto simp: elections_loop_Cons simp del: elections_loop.simps(2)
        split: if_splits option.splits)
qed

text \<open>
  Whatever relation holds between every event and every later event of the stream holds
  between the start and the end of every emitted election.
\<close>

lemma elections_loop_ordered:
  assumes "sorted_wrt R evs" and "\<And>c e. cur = Some c \<Longrightarrow> e \<in> set evs \<Longrightarrow> R (start c) e"
    and "el \<in> set (elections_loop [] cur evs)"
  shows "\<exists>e. end_ev el = Some e \<and> R (start el) e"
  using assms
proof (induction evs arbitrary: cur)
  case Nil
  then show ?case by simp
next
  case (Cons x evs)
  have sw: "sorted_wrt R evs" and hd: "\<And>e. e \<in> set evs \<Longrightarrow> R x e"
    using Cons.prems(1) by auto
  show ?case
  proof (cases "event_type x = ''ELECTION_START''")
    case True
    then have "el \<in> set (elections_loop [] (Some \<lparr>start = x, end_ev = None\<rparr>) evs)"
      using Cons.prems(3) by (simp add: elections_loop_Cons del: elections_loop.simps(2))
    moreover have "\<And>c e. Some \<lparr>start = x, end_ev = None\<rparr> = Some c \<Longrightarrow> e \<in> set evs
        \<Longrightarrow> R (start c) e"
      using hd by auto
    ultimately show ?thesis
      using Cons.IH [OF sw, of "Some \<lparr>start = x, end_ev = None\<rparr>"] by blast
  next
    case notstart: False
    show ?thesis
    proof (cases "event_type x = ''ELECTION_END''")
      case True
      show ?thesis
      proof (cases cur)
        case None
        then have "el \<in> set (elections_loop [] None evs)"
          using Cons.prems(3) notstart True
          by (simp add: elections_loop_Cons del: elections_loop.simps(2))
        then show ?thesis using Cons.IH [OF sw, of None] by simp
      next
        case (Some c)
        then have "el = c\<lparr>end_ev := Some x\<rparr> \<or> el \<in> set (elections_loop [] None evs)"
          using Cons.prems(3) notstart True
          by (simp add: elections_loop_Cons del: elections_loop.simps(2))
        then show ?thesis
        proof
          assume "el = c\<lparr>end_ev := Some x\<rparr>"
          then show ?thesis using Cons.prems(2) [of c x] Some by simp
        next
          assume "el \<in> set (elections_loop [] None evs)"
          then show ?thesis using Cons.IH [OF sw, of None] by simp
        qed
      qed
    next
      case False
      then have "el \<in> set (elections_loop [] cur evs)"
        using Cons.prems(3) notstart
        by (simp add: elections_loop_Cons del: elections_loop.simps(2))
      moreover have "\<And>c e. cur = Some c \<Longrightarrow> e \<in> set evs \<Longrightarrow> R (start c) e"
        using Cons.prems(2) by auto
      ultimately show ?thesis using Cons.IH [OF sw, of cur] by blast
    qed
  qed
qed

lemma elections_loop_append:
  "elections_loop [] cur (xs @ ys) =
     elections_loop [] cur xs @ elections_loop [] (current_after cur xs) ys"
  by (induction xs arbitrary: cur)
    (simp_all add: elections_loop_Cons del: elections_loop.simps(2) split: option.splits)

lemma elections_loop_no_end:
  "\<forall>e\<in>set evs. event_type e \<noteq> ''ELECTION_END'' \<Longrightarrow> elections_loop [] cur evs = []"
  by (induction evs arbitrary: cur) simp_all

lemma get_elections_open_at_end:
  assumes "event_type s = ''ELECTION_START''"
    and "\<forall>e\<in>set mid. event_type e \<noteq> ''ELECTION_END''"
  shows "get_elections (pre @ s # mid) = get_elections pre"
  using assms elections_loop_no_end [of "s # mid"]
  by (simp add: get_elections_def elections_loop_append del: elections_loop.simps(2))

lemma get_elections_abandoned:
  assumes "event_type s = ''ELECTION_START''"
    and "\<forall>e\<in>set mid. event_type e \<noteq> ''ELECTION_END''"
    and "event_type s' = ''ELECTION_START''"
  shows "get_elections (pre @ s # mid @ s' # post) = get_elections (pre @ s' # post)"
proof -
  have "elections_loop [] cur ((s # mid) @ s' # post) =
      elections_loop [] (Some \<lparr>start = s', end_ev = None\<rparr>) post" for cur
    using assms elections_loop_no_end [of "s # mid" cur]
    by (simp only: elections_loop_append [of cur "s # mid"])
      (simp add: elections_loop_Cons del: elections_loop.simps(2))
  moreover have "elections_loop [] cur (s' # post) =
      elections_loop [] (Some \<lparr>start = s', end_ev = None\<rparr>) post" for cur
    using assms by simp
  ultimately show ?thesis
    by (simp add: get_elections_def elections_loop_append [of None pre]
        del: elections_loop.simps(2))
qed

subsection \<open>The loop of calculate-election-latencies\<close>

lemma latencies_loop_acc:
  "latencies_loop P acc els =
     (case latencies_loop P [] els of Inl err \<Rightarrow> Inl err | Inr ls \<Rightarrow> Inr (acc @ ls))"
proof (induction els arbitrary: acc)
  case Nil
  then show ?case by simp
next
  case (Cons el els)
  show ?case
    using Cons.IH [of acc] Cons.IH [of "acc @ [l]" for l] Cons.IH [of "[l]" for l]
    by (simp split: option.splits sum.splits)
qed

lemma latencies_loop_Cons:
  "latencies_loop P [] (el # els) =
     (case end_ev el of
        None \<Rightarrow> latencies_loop P [] els
      | Some e \<Rightarrow>
          (case latency_ms P (start el) e of
             Inl err \<Rightarrow> Inl err
           | Inr l \<Rightarrow>
               (case latencies_loop P [] els of
                  Inl err \<Rightarrow> Inl err
                | Inr ls \<Rightarrow> Inr (l # ls))))"
  using latencies_loop_acc [of P "[l]" els for l]
  by (simp split: option.splits sum.splits)

lemma latencies_loop_closed:
  assumes "\<forall>el\<in>set els. end_ev el \<noteq> None" and "latencies_loop P [] els = Inr ls"
  shows "list_all2 (\<lambda>el l. \<exists>e. end_ev el = Some e \<and> latency_ms P (start el) e = Inr l) els ls"
  using assms
proof (induction els arbitrary: ls)
  case Nil
  then show ?case by simp
next
  case (Cons el els)
  then show ?case
    by (auto simp: latencies_loop_Cons simp del: latencies_loop.simps(2)
        split: option.splits sum.splits)
qed

lemma latencies_loop_returns:
  assumes "\<forall>el\<in>set els. \<exists>e. end_ev el = Some e \<and> parses P (start el) \<and> parses P e"
  shows "\<exists>ls. latencies_loop P [] els = Inr ls"
  using assms
proof (induction els)
  case Nil
  then show ?case by simp
next
  case (Cons el els)
  then obtain e x y where e: "end_ev el = Some e"
      "P (replace_Z (timestamp (start el))) = Some (Aware x)"
      "P (replace_Z (timestamp e)) = Some (Aware y)"
    by (auto simp: parses_def split: option.splits datetime.splits)
  from Cons obtain ls where "latencies_loop P [] els = Inr ls" by auto
  with e show ?case
    by (simp add: latencies_loop_Cons latency_ms_def del: latencies_loop.simps(2))
qed

lemma datetime_sub_le: "datetime_le x y \<Longrightarrow> \<exists>d. datetime_sub y x = Inr d \<and> 0 \<le> d"
  by (cases x; cases y) simp_all

lemma latency_ms_nonneg:
  assumes "ts_le P a b"
  shows "\<exists>l. latency_ms P a b = Inr l \<and> 0 \<le> l"
proof -
  from assms obtain x y where xy: "P (replace_Z (timestamp a)) = Some x"
      "P (replace_Z (timestamp b)) = Some y" "datetime_le x y"
    by (auto simp: ts_le_def split: option.splits)
  then obtain d where "datetime_sub y x = Inr d" "0 \<le> d"
    using datetime_sub_le by blast
  with xy have "latency_ms P a b = Inr (of_int d / 1000)" "(0::rat) \<le> of_int d / 1000"
    by (simp_all add: latency_ms_def)
  then show ?thesis by blast
qed

lemma latencies_loop_nonneg:
  assumes "\<forall>el\<in>set els. \<exists>e. end_ev el = Some e \<and> ts_le P (start el) e"
  shows "\<exists>ls. latencies_loop P [] els = Inr ls \<and> length ls = length els \<and> (\<forall>l\<in>set ls. 0 \<le> l)"
  using assms
proof (induction els)
  case Nil
  then show ?case by simp
next
  case (Cons el els)
  then obtain e where e: "end_ev el = Some e" "ts_le P (start el) e" by auto
  then obtain l where l: "latency_ms P (start el) e = Inr l" "0 \<le> l"
    using latency_ms_nonneg by blast
  from Cons obtain ls where ls: "latencies_loop P [] els = Inr ls" "length ls = length els"
      "\<forall>l\<in>set ls. 0 \<le> l"
    by auto
  show ?case using e l ls
    by (simp add: latencies_loop_Cons del: latencies_loop.simps(2))
qed

lemma replace_Z_samples:
  "replace_Z ''2024-01-01T00:00:00Z'' = ''2024-01-01T00:00:00+00:00''"
  "replace_Z ''2024-01-01T00:00:05Z'' = ''2024-01-01T00:00:05+00:00''"
  "replace_Z ''2024-01-01T00:00:10Z'' = ''2024-01-01T00:00:10+00:00''"
  by (simp_all add: replace_Z_def)

lemmas sample_simps =
  get_elections_def calculate_election_latencies_def latency_ms_def mk_event_def
  replace_Z_samples sample_fromisoformat_def

subsection \<open>The loop of get-event-counts\<close>

lemma increment_sum: "sum_list (map snd (increment counts k)) = Suc (sum_list (map snd counts))"
  by (induction counts k rule: increment.induct) auto

lemma increment_keys: "set (map fst (increment counts k)) = insert k (set (map fst counts))"
  by (induction counts k rule: increment.induct) auto

lemma increment_distinct:
  "distinct (map fst counts) \<Longrightarrow> distinct (map fst (increment counts k))"
proof (induction counts k rule: increment.induct)
  case (1 k)
  then show ?case by simp
next
  case (2 k' c counts k)
  then show ?case using increment_keys [of counts k] by auto
qed

lemma increment_map_of:
  "map_of (increment counts k) t =
     (if t = k then Some (case map_of counts k of None \<Rightarrow> 1 | Some c \<Rightarrow> c + 1)
      else map_of counts t)"
  by (induction counts k rule: increment.induct) auto

lemma count_loop_sum:
  "sum_list (map snd (foldl (\<lambda>counts event. increment counts (event_type event)) acc events))
     = sum_list (map snd acc) + length events"
  by (induction events arbitrary: acc) (simp_all add: increment_sum)

lemma count_loop_distinct:
  "distinct (map fst acc) \<Longrightarrow>
   distinct (map fst (foldl (\<lambda>counts event. increment counts (event_type event)) acc events))"
  by (induction events arbitrary: acc) (simp_all add: increment_distinct)

lemma count_loop_map_of:
  "map_of (foldl (\<lambda>counts event. increment counts (event_type event)) acc events) t =
     (let k = length (filter (\<lambda>e. event_type e = t) events) in
      case map_of acc t of
        None \<Rightarrow> if k = 0 then None else Some k
      | Some c \<Rightarrow> Some (c + k))"
proof (induction events arbitrary: acc)
  case Nil
  then show ?case by (simp split: option.splits)
next
  case (Cons e events)
  show ?case
    by (simp add: Cons.IH increment_map_of Let_def split: option.splits)
qed

subsection \<open>Claims about the interval reconstructor and the latencies\<close>

text \<open>
  C1, as amended. The claim as stated fails: \<open>get_elections\<close> compares no timestamps and
  discards nothing, so an end that is earlier than its start is kept and its latency is
  negative. What holds: for every event stream whose parsed
  timestamps are non-decreasing in stream order, every emitted interval is closed, its
  end timestamp is greater than or equal to its start timestamp, and
  \<open>calculate_election_latencies\<close> returns one non-negative latency per emitted interval.
\<close>

theorem ordered_stream_intervals_ordered:
  assumes "sorted_wrt (ts_le fromisoformat) events"
  shows "(\<forall>el\<in>set (get_elections events).
            \<exists>e. end_ev el = Some e \<and> ts_le fromisoformat (start el) e)
    \<and> (\<exists>ls. calculate_election_latencies fromisoformat events = Inr ls
           \<and> length ls = length (get_elections events) \<and> (\<forall>l\<in>set ls. 0 \<le> l))"
proof -
  have "\<forall>el\<in>set (get_elections events).
      \<exists>e. end_ev el = Some e \<and> ts_le fromisoformat (start el) e"
    unfolding get_elections_def
    using elections_loop_ordered [OF assms, of None] by blast
  then show ?thesis
    using latencies_loop_nonneg [of "get_elections events" fromisoformat]
    by (simp add: calculate_election_latencies_def)
qed

lemma sorted_ordered_events: "sorted_wrt (ts_le sample_fromisoformat) ordered_events"
  by (simp add: ordered_events_def ts_le_def mk_event_def replace_Z_samples
      sample_fromisoformat_def)

theorem ordered_stream_intervals_ordered_witness:
  "sorted_wrt (ts_le sample_fromisoformat) ordered_events
   \<and> get_elections ordered_events =
       [\<lparr>start = mk_event ''2024-01-01T00:00:00Z'' ''ELECTION_START'',
         end_ev = Some (mk_event ''2024-01-01T00:00:10Z'' ''ELECTION_END'')\<rparr>]
   \<and> calculate_election_latencies sample_fromisoformat ordered_events = Inr [10000]"
  using ordered_stream_intervals_ordered [OF sorted_ordered_events] sorted_ordered_events
  by (simp add: ordered_events_def sample_simps)

text \<open>
  The stream START at 00:00:10, END at 00:00:05: the pair is emitted, and its latency is
  -5000 ms.
\<close>

theorem end_before_start_kept:
  "get_elections reversed_events =
       [\<lparr>start = mk_event ''2024-01-01T00:00:10Z'' ''ELECTION_START'',
         end_ev = Some (mk_event ''2024-01-01T00:00:05Z'' ''ELECTION_END'')\<rparr>]
   \<and> calculate_election_latencies sample_fromisoformat reversed_events = Inr [- 5000]"
  by (simp add: reversed_events_def sample_simps)

text \<open>
  C2, as amended. The claim as stated fails: an interval that is open when the stream
  ends, or that a new ELECTION_START abandons, is not in the output at all. What holds: every interval in the output of
  \<open>get_elections\<close> is closed; an ELECTION_START followed by no ELECTION_END up to the end
  of the stream, or up to the next ELECTION_START, leaves no trace in the output; and
  the latency list has exactly one entry per emitted interval, so no open interval takes
  part in the latency computation.
\<close>

theorem open_intervals_dropped:
  "(\<forall>el\<in>set (get_elections events). end_ev el \<noteq> None)
   \<and> (event_type s = ''ELECTION_START'' \<and> (\<forall>e\<in>set mid. event_type e \<noteq> ''ELECTION_END'')
        \<longrightarrow> get_elections (pre @ s # mid) = get_elections pre)
   \<and> (event_type s = ''ELECTION_START'' \<and> (\<forall>e\<in>set mid. event_type e \<noteq> ''ELECTION_END'')
        \<and> event_type s' = ''ELECTION_START''
        \<longrightarrow> get_elections (pre @ s # mid @ s' # post) = get_elections (pre @ s' # post))
   \<and> (calculate_election_latencies fromisoformat events = Inr ls
        \<longrightarrow> length ls = length (get_elections events))"
proof -
  have closed: "\<forall>el\<in>set (get_elections events). end_ev el \<noteq> None"
    using elections_loop_closed by (auto simp: get_elections_def)
  have "length ls = length (get_elections events)"
    if "calculate_election_latencies fromisoformat events = Inr ls"
    using latencies_loop_closed [OF closed, of fromisoformat ls] that
    by (simp add: calculate_election_latencies_def list_all2_lengthD)
  then show ?thesis
    using closed get_elections_open_at_end [of s mid pre]
      get_elections_abandoned [of s mid s' pre post]
    by blast
qed

theorem open_intervals_dropped_witness:
  "get_elections abandoned_events =
     [\<lparr>start = mk_event ''2024-01-01T00:00:05Z'' ''ELECTION_START'',
       end_ev = Some (mk_event ''2024-01-01T00:00:10Z'' ''ELECTION_END'')\<rparr>]
   \<and> get_elections ([] @ mk_event ''2024-01-01T00:00:00Z'' ''ELECTION_START''
         # [mk_event ''2024-01-01T00:00:05Z'' ''TERM_CHANGE'']) = get_elections []
   \<and> get_elections ([] @ mk_event ''2024-01-01T00:00:00Z'' ''ELECTION_START''
         # [] @ mk_event ''2024-01-01T00:00:05Z'' ''ELECTION_START''
         # [mk_event ''2024-01-01T00:00:10Z'' ''ELECTION_END''])
       = get_elections ([] @ mk_event ''2024-01-01T00:00:05Z'' ''ELECTION_START''
         # [mk_event ''2024-01-01T00:00:10Z'' ''ELECTION_END''])
   \<and> calculate_election_latencies sample_fromisoformat abandoned_events = Inr [5000]
   \<and> length [5000 :: rat] = length (get_elections abandoned_events)"
  using open_intervals_dropped [of abandoned_events
      "mk_event ''2024-01-01T00:00:00Z'' ''ELECTION_START''"
      "[mk_event ''2024-01-01T00:00:05Z'' ''TERM_CHANGE'']" "[]"
      "mk_event ''2024-01-01T00:00:05Z'' ''ELECTION_START''"
      "[mk_event ''2024-01-01T00:00:10Z'' ''ELECTION_END'']"
      sample_fromisoformat "[5000]"]
  by (simp add: abandoned_events_def sample_simps)

text \<open>
  A lone ELECTION_START yields no interval, open or closed; of two ELECTION_START events
  before one ELECTION_END only the second is in the output.
\<close>

theorem open_interval_not_emitted:
  "get_elections [mk_event ''2024-01-01T00:00:00Z'' ''ELECTION_START''] = []
   \<and> get_elections abandoned_events =
     [\<lparr>start = mk_event ''2024-01-01T00:00:05Z'' ''ELECTION_START'',
       end_ev = Some (mk_event ''2024-01-01T00:00:10Z'' ''ELECTION_END'')\<rparr>]"
  by (simp add: abandoned_events_def sample_simps)

text \<open>
  C3, as amended. The claim as stated fails: the latency computation has no filter and
  no counter, and a zero or negative latency is in the returned list. What holds: when
  \<open>calculate_election_latencies\<close> returns, its list has, in order, exactly one entry per
  emitted interval, the difference end minus start in milliseconds, whatever its sign;
  and it returns whenever every timestamp of the stream parses to a datetime with a
  UTC offset.
\<close>

theorem latencies_keep_every_interval:
  "(calculate_election_latencies fromisoformat events = Inr ls \<longrightarrow>
      list_all2 (\<lambda>el l. \<exists>e. end_ev el = Some e \<and> latency_ms fromisoformat (start el) e = Inr l)
        (get_elections events) ls)
   \<and> ((\<forall>e\<in>set events. parses fromisoformat e) \<longrightarrow>
        (\<exists>ls'. calculate_election_latencies fromisoformat events = Inr ls'))"
proof -
  have closed: "\<forall>el\<in>set (get_elections events). end_ev el \<noteq> None"
    using elections_loop_closed by (auto simp: get_elections_def)
  have a: "list_all2 (\<lambda>el l. \<exists>e. end_ev el = Some e \<and> latency_ms fromisoformat (start el) e = Inr l)
        (get_elections events) ls"
    if "calculate_election_latencies fromisoformat events = Inr ls"
    using latencies_loop_closed [OF closed, of fromisoformat ls] that
    by (simp add: calculate_election_latencies_def)
  have b: "\<exists>ls'. calculate_election_latencies fromisoformat events = Inr ls'"
    if all: "\<forall>e\<in>set events. parses fromisoformat e"
  proof -
    let ?R = "\<lambda>a b. parses fromisoformat a \<and> parses fromisoformat b"
    have "sorted_wrt ?R events"
      using all by (simp add: sorted_wrt_iff_nth_less)
    then have "\<forall>el\<in>set (get_elections events). \<exists>e. end_ev el = Some e \<and> ?R (start el) e"
      unfolding get_elections_def
      using elections_loop_ordered [of ?R events None] by blast
    then show ?thesis
      using latencies_loop_returns [of "get_elections events" fromisoformat]
      by (simp add: calculate_election_latencies_def)
  qed
  from a b show ?thesis by blast
qed

lemma parses_nonpositive_events: "\<forall>e\<in>set nonpositive_events. parses sample_fromisoformat e"
  by (simp add: nonpositive_events_def parses_def mk_event_def replace_Z_samples
      sample_fromisoformat_def)

theorem latencies_keep_every_interval_witness:
  "calculate_election_latencies sample_fromisoformat nonpositive_events = Inr [0, - 10000]
   \<and> list_all2 (\<lambda>el l. \<exists>e. end_ev el = Some e
          \<and> latency_ms sample_fromisoformat (start el) e = Inr l)
        (get_elections nonpositive_events) [0, - 10000]
   \<and> (\<exists>ls'. calculate_election_latencies sample_fromisoformat nonpositive_events = Inr ls')"
proof -
  have ev: "calculate_election_latencies sample_fromisoformat nonpositive_events
      = Inr [0, - 10000]"
    by (simp add: nonpositive_events_def sample_simps)
  show ?thesis
    using latencies_keep_every_interval [of sample_fromisoformat nonpositive_events
        "[0, - 10000]"] ev parses_nonpositive_events
    by blast
qed

text \<open>
  Two closed intervals, of latency 0 ms and -10000 ms: both values are in the list that
  \<open>calculate_election_latencies\<close> returns.
\<close>

theorem nonpositive_latency_included:
  "length (get_elections nonpositive_events) = 2
   \<and> calculate_election_latencies sample_fromisoformat nonpositive_events = Inr [0, - 10000]"
  by (simp add: nonpositive_events_def sample_simps)

text \<open>
  C8. For every event stream, the number of intervals emitted by \<open>get_elections\<close> (all of
  them closed) is at most the number of ELECTION_START events of the stream; a stream
  without ELECTION_START, in particular a lone ELECTION_END, yields no interval.
\<close>

theorem closed_intervals_le_starts:
  "length (get_elections events)
     \<le> length (filter (\<lambda>e. event_type e = ''ELECTION_START'') events)
   \<and> (event_type e = ''ELECTION_END'' \<longrightarrow> get_elections [e] = [])"
  using elections_loop_count [of None events]
  by (simp add: get_elections_def)

theorem closed_intervals_le_starts_witness:
  "length (get_elections abandoned_events) = 1
   \<and> length (filter (\<lambda>e. event_type e = ''ELECTION_START'') abandoned_events) = 2
   \<and> get_elections [mk_event ''2024-01-01T00:00:10Z'' ''ELECTION_END''] = []"
  using closed_intervals_le_starts [of abandoned_events
      "mk_event ''2024-01-01T00:00:10Z'' ''ELECTION_END''"]
  by (simp add: abandoned_events_def sample_simps)

text \<open>
  C10. The output of \<open>get_elections\<close> depends only on the subsequence of the events whose
  type is ELECTION_START or ELECTION_END: it is the output on that subsequence, and
  deleting or inserting an event of any other type anywhere in the stream leaves it
  unchanged.
\<close>

theorem get_elections_only_election_events:
  "get_elections (filter is_election_event events) = get_elections events
   \<and> (\<not> is_election_event x \<longrightarrow> get_elections (pre @ x # post) = get_elections (pre @ post))"
proof -
  have a: "get_elections (filter is_election_event evs) = get_elections evs" for evs
    by (simp add: get_elections_def elections_loop_filter)
  have "get_elections (pre @ x # post) = get_elections (pre @ post)"
    if "\<not> is_election_event x"
    using a [of "pre @ x # post"] a [of "pre @ post"] that by simp
  with a show ?thesis by blast
qed

theorem get_elections_only_election_events_witness:
  "filter is_election_event ordered_events =
     [mk_event ''2024-01-01T00:00:00Z'' ''ELECTION_START'',
      mk_event ''2024-01-01T00:00:10Z'' ''ELECTION_END'']
   \<and> get_elections [mk_event ''2024-01-01T00:00:00Z'' ''ELECTION_START'',
        mk_event ''2024-01-01T00:00:10Z'' ''ELECTION_END''] = get_elections ordered_events
   \<and> \<not> is_election_event (mk_event ''2024-01-01T00:00:05Z'' ''WRITE_REQUEST'')
   \<and> get_elections (ordered_events @ mk_event ''2024-01-01T00:00:05Z'' ''WRITE_REQUEST'' # [])
       = get_elections (ordered_events @ [])"
  using get_elections_only_election_events [of ordered_events
      "mk_event ''2024-01-01T00:00:05Z'' ''WRITE_REQUEST''" ordered_events "[]"]
  by (simp add: ordered_events_def is_election_event_def mk_event_def)

subsection \<open>Claims about the event counts\<close>

text \<open>
  C9. For every event list, the counts returned by \<open>get_event_counts\<close> sum to the number
  of events: the keys are distinct, the count under an event type is the number of events
  of that type (a type without events has no key), and in the report of
  \<open>export_json_report\<close> the values of \<open>event_counts\<close> sum to \<open>total_events\<close>.
\<close>

theorem event_counts_sum_to_total:
  "sum_list (map snd (get_event_counts events)) = length events
   \<and> distinct (map fst (get_event_counts events))
   \<and> map_of (get_event_counts events) t =
       (if length (filter (\<lambda>e. event_type e = t) events) = 0 then None
        else Some (length (filter (\<lambda>e. event_type e = t) events)))
   \<and> (export_json_report fromisoformat events = Inr r
        \<longrightarrow> sum_list (map snd (event_counts r)) = total_events r)"
proof -
  have a: "sum_list (map snd (get_event_counts events)) = length events"
    using count_loop_sum [of "[]" events] by (simp add: get_event_counts_def)
  have b: "distinct (map fst (get_event_counts events))"
    using count_loop_distinct [of "[]" events] by (simp add: get_event_counts_def)
  have c: "map_of (get_event_counts events) t =
       (if length (filter (\<lambda>e. event_type e = t) events) = 0 then None
        else Some (length (filter (\<lambda>e. event_type e = t) events)))"
    using count_loop_map_of [of "[]" events t] by (simp add: get_event_counts_def Let_def)
  have d: "sum_list (map snd (event_counts r)) = total_events r"
    if "export_json_report fromisoformat events = Inr r"
    using that a by (auto simp: export_json_report_def split: sum.splits)
  from a b c d show ?thesis by blast
qed

theorem event_counts_sum_to_total_witness:
  "get_event_counts abandoned_events = [(''ELECTION_START'', 2), (''ELECTION_END'', 1)]
   \<and> length abandoned_events = 3
   \<and> (\<exists>r. export_json_report sample_fromisoformat abandoned_events = Inr r
        \<and> event_counts r = [(''ELECTION_START'', 2), (''ELECTION_END'', 1)]
        \<and> total_events r = 3
        \<and> sum_list (map snd (event_counts r)) = total_events r)"
proof -
  have ev: "calculate_election_latencies sample_fromisoformat abandoned_events = Inr [5000]"
    by (simp add: abandoned_events_def sample_simps)
  have cnt: "get_event_counts abandoned_events = [(''ELECTION_START'', 2), (''ELECTION_END'', 1)]"
    by (simp add: abandoned_events_def get_event_counts_def mk_event_def)
  obtain r where r: "export_json_report sample_fromisoformat abandoned_events = Inr r"
      "event_counts r = get_event_counts abandoned_events"
      "total_events r = length abandoned_events"
    using ev by (simp add: export_json_report_def)
  have "length abandoned_events = 3" by (simp add: abandoned_events_def)
  with r cnt show ?thesis
    using event_counts_sum_to_total [of abandoned_events _ sample_fromisoformat r]
    by auto
qed


section \<open>Properties of the benchmark statistics\<close>

subsection \<open>Standard deviation and confidence interval\<close>

lemma pd_std_cases:
  "pd_std col =
     (if 2 \<le> pd_count col then
        Some (sqrt (sum_list (map (\<lambda>x. (x - sum_list (dropna col) / real (pd_count col))\<^sup>2) (dropna col))
          / real (pd_count col - 1)))
      else None)"
  by (auto simp: pd_std_def pd_count_def Let_def)

lemma ci95_of_cases:
  "ci95_of t_ppf (pd_count col) (pd_std col) =
     (if 1 < pd_count col then
        Some (t_ppf 0.975 (real (pd_count col) - 1)
          * sqrt (sum_list (map (\<lambda>x. (x - sum_list (dropna col) / real (pd_count col))\<^sup>2) (dropna col))
              / real (pd_count col - 1))
          / sqrt (real (pd_count col)))
      else Some 0)"
  by (simp add: ci95_of_def pd_std_cases)

lemma sum_sq_nonneg: "0 \<le> sum_list (map (\<lambda>x. (x - m)\<^sup>2) (vals :: real list))"
  by (induction vals) simp_all

lemma pd_std_sq:
  assumes "pd_std col = Some s"
  shows "0 \<le> s \<and> s\<^sup>2 * real (pd_count col - 1)
       = sum_list (map (\<lambda>x. (x - sum_list (dropna col) / real (pd_count col))\<^sup>2) (dropna col))"
proof -
  let ?ss = "sum_list (map (\<lambda>x. (x - sum_list (dropna col) / real (pd_count col))\<^sup>2) (dropna col))"
  from assms have n: "2 \<le> pd_count col" and s: "s = sqrt (?ss / real (pd_count col - 1))"
    by (auto simp: pd_std_cases split: if_splits)
  have "0 \<le> ?ss / real (pd_count col - 1)" using sum_sq_nonneg by simp
  then have "s\<^sup>2 = ?ss / real (pd_count col - 1)" "0 \<le> s" using s by simp_all
  with n show ?thesis by simp
qed

text \<open>The sum of the squared deviations from the mean, in its other usual form.\<close>

lemma sum_sq_dev:
  fixes vals :: "real list"
  assumes "vals \<noteq> []"
  shows "sum_list (map (\<lambda>x. (x - sum_list vals / real (length vals))\<^sup>2) vals)
       = sum_list (map (\<lambda>x. x\<^sup>2) vals) - (sum_list vals)\<^sup>2 / real (length vals)"
proof -
  define m where "m = sum_list vals / real (length vals)"
  have gen: "sum_list (map (\<lambda>x. (x - c)\<^sup>2) xs)
      = sum_list (map (\<lambda>x. x\<^sup>2) xs) - 2 * c * sum_list xs + real (length xs) * c\<^sup>2"
    for c :: real and xs
    by (induction xs) (simp_all add: power2_eq_square algebra_simps)
  have len: "real (length vals) \<noteq> 0" using assms by simp
  have "sum_list vals = real (length vals) * m" using len by (simp add: m_def)
  then have "sum_list (map (\<lambda>x. (x - m)\<^sup>2) vals)
      = sum_list (map (\<lambda>x. x\<^sup>2) vals) - real (length vals) * m\<^sup>2"
    using gen [of m vals] by (simp add: power2_eq_square algebra_simps)
  moreover have "real (length vals) * m\<^sup>2 = (sum_list vals)\<^sup>2 / real (length vals)"
    using len by (simp add: m_def power2_eq_square)
  ultimately show ?thesis by (simp add: m_def)
qed

lemma pd_std_unbiased: "unbiased_std (dropna col) (pd_std col)"
proof (cases "pd_std col")
  case None
  then show ?thesis by (simp add: unbiased_std_def pd_std_cases pd_count_def split: if_splits)
next
  case (Some s)
  then have n: "2 \<le> length (dropna col)"
    by (simp add: pd_std_cases pd_count_def split: if_splits)
  then have ne: "dropna col \<noteq> []" by auto
  show ?thesis
    using pd_std_sq [OF Some] n sum_sq_dev [OF ne] Some
    by (simp add: unbiased_std_def pd_count_def)
qed

lemma sqrt5_bounds: "2.236 < sqrt 5" "sqrt 5 < 2.2361"
proof -
  have "sqrt (2.236\<^sup>2) < sqrt 5" by (subst real_sqrt_less_iff) (simp add: power2_eq_square)
  then show "2.236 < sqrt 5" by simp
  have "sqrt 5 < sqrt (2.2361\<^sup>2)" by (subst real_sqrt_less_iff) (simp add: power2_eq_square)
  then show "sqrt 5 < 2.2361" by simp
qed

lemma half_width_bounds:
  assumes "2.776 \<le> (t::real)" "t \<le> 2.777"
  shows "12.41 \<le> t * 10 / sqrt 5" "t * 10 / sqrt 5 \<le> 12.42"
proof -
  have pos: "0 < sqrt 5" by simp
  have "12.41 * sqrt 5 \<le> 12.41 * 2.2361" using sqrt5_bounds by simp
  also have "\<dots> \<le> t * 10" using assms by simp
  finally show "12.41 \<le> t * 10 / sqrt 5" using pos by (simp add: pos_le_divide_eq)
  have "t * 10 \<le> 12.42 * 2.236" using assms by simp
  also have "\<dots> \<le> 12.42 * sqrt 5" using sqrt5_bounds by simp
  finally show "t * 10 / sqrt 5 \<le> 12.42" using pos by (simp add: pos_divide_le_eq)
qed

lemma sqrt_100: "sqrt 100 = 10"
proof -
  have "sqrt ((10::real)\<^sup>2) = 10" by (simp del: power2_eq_square)
  then show ?thesis by (simp add: power2_eq_square)
qed

lemma dropna_five: "dropna [Some 90, Some 90, Some 110, Some 110, Some (100::real)]
    = [90, 90, 110, 110, 100]"
  by (simp add: dropna_def List.map_filter_simps)

lemma dropna_one: "dropna [Some (250::real)] = [250]"
  by (simp add: dropna_def)

lemma group_keys_mixed_runs: "group_keys mixed_runs = [(''baseline'', 100), (''chaos'', 100)]"
  by (simp add: group_keys_def mixed_runs_def mk_run_def less_eq_char_def less_char_def)

lemma mixed_runs_columns:
  "map throughput (group_rows mixed_runs (''baseline'', 100))
     = [Some 90, Some 90, Some 110, Some 110, Some 100]"
  "map throughput (group_rows mixed_runs (''chaos'', 100)) = [Some 250]"
  by (simp_all add: group_rows_def mixed_runs_def mk_run_def)

lemma mixed_runs_rows:
  "plot_throughput_vs_requests sample_t_ppf mixed_runs =
     [\<lparr>agg_scenario = ''baseline'', agg_totalRequests = 100, mean_throughput = Some 100,
       std_throughput = Some 10, n_count = 5, ci95 = Some (2.776 * 10 / sqrt 5)\<rparr>,
      \<lparr>agg_scenario = ''chaos'', agg_totalRequests = 100, mean_throughput = Some 250,
       std_throughput = None, n_count = 1, ci95 = Some 0\<rparr>]"
  by (simp add: plot_throughput_vs_requests_def group_keys_mixed_runs agg_group_def
      mixed_runs_columns pd_mean_def pd_std_def pd_count_def dropna_five dropna_one ci95_of_def
      sample_t_ppf_def sqrt_100 Let_def)

lemma mixed_runs_summary:
  "map runs (write_results_md sample_t_ppf mixed_runs) = [5, 1]"
  "map throughput_std (write_results_md sample_t_ppf mixed_runs) = [Some 10, None]"
  "map sum_ci95 (write_results_md sample_t_ppf mixed_runs) = [Some (2.776 * 10 / sqrt 5), Some 0]"
  by (simp_all add: write_results_md_def group_keys_mixed_runs summary_group_def
      mixed_runs_columns pd_std_def pd_count_def dropna_five dropna_one ci95_of_def
      sample_t_ppf_def sqrt_100 Let_def)

lemma two_runs_row:
  "plot_throughput_vs_requests sample_t_ppf two_runs =
     [\<lparr>agg_scenario = ''baseline'', agg_totalRequests = 100, mean_throughput = Some 100,
       std_throughput = Some (sqrt 200), n_count = 2,
       ci95 = Some (12.706 * sqrt 200 / sqrt 2)\<rparr>]"
proof -
  have k: "group_keys two_runs = [(''baseline'', 100)]"
    by (simp add: group_keys_def two_runs_def mk_run_def List.map_filter_simps)
  have col: "map throughput (group_rows two_runs (''baseline'', 100)) = [Some 90, Some 110]"
    by (simp add: group_rows_def two_runs_def mk_run_def)
  have dn: "dropna [Some 90, Some (110::real)] = [90, 110]"
    by (simp add: dropna_def List.map_filter_simps)
  show ?thesis
    by (simp add: plot_throughput_vs_requests_def k agg_group_def col pd_mean_def pd_std_def
        pd_count_def dn ci95_of_def sample_t_ppf_def Let_def)
qed

lemma two_runs_summary:
  "summary_group sample_t_ppf two_runs (''baseline'', 100)
     \<in> set (write_results_md sample_t_ppf two_runs)"
  "throughput_std (summary_group sample_t_ppf two_runs (''baseline'', 100)) = Some (sqrt 200)"
  "latency_std (summary_group sample_t_ppf two_runs (''baseline'', 100)) = Some 0"
  "sum_scenario (summary_group sample_t_ppf two_runs (''baseline'', 100)) = ''baseline''"
  "sum_totalRequests (summary_group sample_t_ppf two_runs (''baseline'', 100)) = 100"
proof -
  have k: "group_keys two_runs = [(''baseline'', 100)]"
    by (simp add: group_keys_def two_runs_def mk_run_def)
  show "summary_group sample_t_ppf two_runs (''baseline'', 100)
     \<in> set (write_results_md sample_t_ppf two_runs)"
    by (simp add: write_results_md_def k)
  have g: "group_rows two_runs (''baseline'', 100) = two_runs"
    by (simp add: group_rows_def two_runs_def mk_run_def)
  have dn: "dropna (map throughput two_runs) = [90, 110]" "dropna (map avgLatencyMs two_runs) = [2, 2]"
    by (simp_all add: two_runs_def mk_run_def dropna_def)
  show "throughput_std (summary_group sample_t_ppf two_runs (''baseline'', 100)) = Some (sqrt 200)"
    "latency_std (summary_group sample_t_ppf two_runs (''baseline'', 100)) = Some 0"
    "sum_scenario (summary_group sample_t_ppf two_runs (''baseline'', 100)) = ''baseline''"
    "sum_totalRequests (summary_group sample_t_ppf two_runs (''baseline'', 100)) = 100"
    by (simp_all add: summary_group_def g pd_std_def dn Let_def)
qed

text \<open>
  C5. For every group with a sample count \<open>n > 1\<close>, in the table of
  \<open>plot_throughput_vs_requests\<close> and in the table of \<open>write_results_md\<close>, the 95%
  half-width is the value of the Student-t quantile function at 0.975 with \<open>n - 1\<close>
  degrees of freedom, multiplied by the standard deviation of the group and divided by
  the square root of \<open>n\<close>; for every group with \<open>n \<le> 1\<close> it is 0. For \<open>n = 5\<close> and a
  standard deviation of 10, a critical value between 2.776 and 2.777 gives a half-width
  between 12.41 and 12.42.
\<close>

theorem ci95_student_t:
  "(row \<in> set (plot_throughput_vs_requests t_ppf df) \<longrightarrow>
      (1 < n_count row \<longrightarrow>
         (\<exists>s. std_throughput row = Some s
            \<and> ci95 row = Some (t_ppf 0.975 (real (n_count row) - 1) * s / sqrt (real (n_count row)))))
      \<and> (n_count row \<le> 1 \<longrightarrow> ci95 row = Some 0))
   \<and> (srow \<in> set (write_results_md t_ppf df) \<longrightarrow>
      (1 < runs srow \<longrightarrow>
         (\<exists>s. throughput_std srow = Some s
            \<and> sum_ci95 srow = Some (t_ppf 0.975 (real (runs srow) - 1) * s / sqrt (real (runs srow)))))
      \<and> (runs srow \<le> 1 \<longrightarrow> sum_ci95 srow = Some 0))
   \<and> (2.776 \<le> t_ppf 0.975 4 \<and> t_ppf 0.975 4 \<le> 2.777 \<longrightarrow>
        (\<exists>h. ci95_of t_ppf 5 (Some 10) = Some h \<and> 12.41 \<le> h \<and> h \<le> 12.42))"
proof -
  have a: "(1 < n_count row \<longrightarrow>
         (\<exists>s. std_throughput row = Some s
            \<and> ci95 row = Some (t_ppf 0.975 (real (n_count row) - 1) * s / sqrt (real (n_count row)))))
      \<and> (n_count row \<le> 1 \<longrightarrow> ci95 row = Some 0)"
    if "row \<in> set (plot_throughput_vs_requests t_ppf df)"
  proof -
    from that obtain key where "row = agg_group t_ppf df key"
      by (auto simp: plot_throughput_vs_requests_def)
    then show ?thesis
      by (simp add: agg_group_def Let_def ci95_of_cases) (simp add: pd_std_cases)
  qed
  have b: "(1 < runs srow \<longrightarrow>
         (\<exists>s. throughput_std srow = Some s
            \<and> sum_ci95 srow = Some (t_ppf 0.975 (real (runs srow) - 1) * s / sqrt (real (runs srow)))))
      \<and> (runs srow \<le> 1 \<longrightarrow> sum_ci95 srow = Some 0)"
    if "srow \<in> set (write_results_md t_ppf df)"
  proof -
    from that obtain key where "srow = summary_group t_ppf df key"
      by (auto simp: write_results_md_def)
    then show ?thesis
      by (simp add: summary_group_def Let_def ci95_of_cases) (simp add: pd_std_cases)
  qed
  have c: "\<exists>h. ci95_of t_ppf 5 (Some 10) = Some h \<and> 12.41 \<le> h \<and> h \<le> 12.42"
    if "2.776 \<le> t_ppf 0.975 4 \<and> t_ppf 0.975 4 \<le> 2.777"
    using half_width_bounds [of "t_ppf 0.975 4"] that by (simp add: ci95_of_def)
  from a b c show ?thesis by blast
qed

theorem ci95_student_t_witness:
  "plot_throughput_vs_requests sample_t_ppf mixed_runs =
     [\<lparr>agg_scenario = ''baseline'', agg_totalRequests = 100, mean_throughput = Some 100,
       std_throughput = Some 10, n_count = 5, ci95 = Some (2.776 * 10 / sqrt 5)\<rparr>,
      \<lparr>agg_scenario = ''chaos'', agg_totalRequests = 100, mean_throughput = Some 250,
       std_throughput = None, n_count = 1, ci95 = Some 0\<rparr>]
   \<and> map runs (write_results_md sample_t_ppf mixed_runs) = [5, 1]
   \<and> map throughput_std (write_results_md sample_t_ppf mixed_runs) = [Some 10, None]
   \<and> map sum_ci95 (write_results_md sample_t_ppf mixed_runs)
       = [Some (sample_t_ppf 0.975 (real 5 - 1) * 10 / sqrt (real 5)), Some 0]
   \<and> sample_t_ppf 0.975 4 = 2.776
   \<and> (\<exists>h. ci95_of sample_t_ppf 5 (Some 10) = Some h \<and> 12.41 \<le> h \<and> h \<le> 12.42)"
proof -
  let ?row = "\<lparr>agg_scenario = ''baseline'', agg_totalRequests = 100, mean_throughput = Some 100,
       std_throughput = Some 10, n_count = 5, ci95 = Some (2.776 * 10 / sqrt 5)\<rparr>"
  let ?srow = "summary_group sample_t_ppf mixed_runs (''chaos'', 100)"
  have t: "sample_t_ppf 0.975 4 = 2.776" by (simp add: sample_t_ppf_def)
  have row: "?row \<in> set (plot_throughput_vs_requests sample_t_ppf mixed_runs)"
    by (simp add: mixed_runs_rows)
  have srow: "?srow \<in> set (write_results_md sample_t_ppf mixed_runs)"
    by (simp add: write_results_md_def group_keys_mixed_runs)
  have n: "1 < n_count ?row" "runs ?srow \<le> 1"
    by (simp_all add: summary_group_def mixed_runs_columns pd_count_def dropna_one Let_def)
  show ?thesis
    using ci95_student_t [of ?row sample_t_ppf mixed_runs ?srow] row srow n t
      mixed_runs_rows mixed_runs_summary
    by simp
qed

text \<open>
  C7, as amended. The claim as stated fails for a group of one sample: the standard
  deviation of pandas is NaN there, not 0; only the confidence interval is set to 0. What holds: for every group with at least two
  samples the standard deviation is the unbiased (n - 1) sample estimator, and for a
  group with fewer than two samples it is undefined (NaN).
\<close>

theorem std_unbiased_estimator:
  "(row \<in> set (plot_throughput_vs_requests t_ppf df) \<longrightarrow>
      unbiased_std
        (dropna (map throughput (group_rows df (agg_scenario row, agg_totalRequests row))))
        (std_throughput row))
   \<and> (srow \<in> set (write_results_md t_ppf df) \<longrightarrow>
      unbiased_std
        (dropna (map throughput (group_rows df (sum_scenario srow, sum_totalRequests srow))))
        (throughput_std srow)
      \<and> unbiased_std
        (dropna (map avgLatencyMs (group_rows df (sum_scenario srow, sum_totalRequests srow))))
        (latency_std srow))
   \<and> (length (dropna col) = 1 \<longrightarrow> pd_std col = None)"
proof -
  have a: "unbiased_std
        (dropna (map throughput (group_rows df (agg_scenario row, agg_totalRequests row))))
        (std_throughput row)"
    if "row \<in> set (plot_throughput_vs_requests t_ppf df)"
  proof -
    from that obtain key where "row = agg_group t_ppf df key"
      by (auto simp: plot_throughput_vs_requests_def)
    then show ?thesis by (simp add: agg_group_def Let_def pd_std_unbiased)
  qed
  have b: "unbiased_std
        (dropna (map throughput (group_rows df (sum_scenario srow, sum_totalRequests srow))))
        (throughput_std srow)
      \<and> unbiased_std
        (dropna (map avgLatencyMs (group_rows df (sum_scenario srow, sum_totalRequests srow))))
        (latency_std srow)"
    if "srow \<in> set (write_results_md t_ppf df)"
  proof -
    from that obtain key where "srow = summary_group t_ppf df key"
      by (auto simp: write_results_md_def)
    then show ?thesis by (simp add: summary_group_def Let_def pd_std_unbiased)
  qed
  have c: "pd_std col = None" if "length (dropna col) = 1"
    using that by (simp add: pd_std_cases pd_count_def)
  from a b c show ?thesis by blast
qed

theorem std_unbiased_estimator_witness:
  "plot_throughput_vs_requests sample_t_ppf two_runs =
     [\<lparr>agg_scenario = ''baseline'', agg_totalRequests = 100, mean_throughput = Some 100,
       std_throughput = Some (sqrt 200), n_count = 2,
       ci95 = Some (12.706 * sqrt 200 / sqrt 2)\<rparr>]
   \<and> dropna (map throughput (group_rows two_runs (''baseline'', 100))) = [90, 110]
   \<and> dropna (map avgLatencyMs (group_rows two_runs (''baseline'', 100))) = [2, 2]
   \<and> unbiased_std [90, 110] (Some (sqrt 200))
   \<and> unbiased_std [2, 2] (Some 0)
   \<and> length (dropna [Some 250 :: real option]) = 1
   \<and> pd_std [Some 250] = None"
proof -
  let ?row = "\<lparr>agg_scenario = ''baseline'', agg_totalRequests = 100, mean_throughput = Some 100,
       std_throughput = Some (sqrt 200), n_count = 2,
       ci95 = Some (12.706 * sqrt 200 / sqrt 2)\<rparr>"
  let ?srow = "summary_group sample_t_ppf two_runs (''baseline'', 100)"
  have vals: "dropna (map throughput (group_rows two_runs (''baseline'', 100))) = [90, 110]"
    "dropna (map avgLatencyMs (group_rows two_runs (''baseline'', 100))) = [2, 2]"
    by (simp_all add: group_rows_def two_runs_def mk_run_def dropna_def)
  have one: "length (dropna [Some 250 :: real option]) = 1"
    by (simp add: dropna_def)
  show ?thesis
    using std_unbiased_estimator [of ?row sample_t_ppf two_runs ?srow "[Some 250]"]
      two_runs_row two_runs_summary vals one
    by simp
qed

text \<open>
  One run in its group: the count is 1 and both tables hold NaN as the standard
  deviation.
\<close>

theorem single_sample_std_is_nan:
  "map n_count (plot_throughput_vs_requests sample_t_ppf one_run) = [1]
   \<and> map std_throughput (plot_throughput_vs_requests sample_t_ppf one_run) = [None]
   \<and> map throughput_std (write_results_md sample_t_ppf one_run) = [None]"
proof -
  have k: "group_keys one_run = [(''baseline'', 100)]"
    by (simp add: group_keys_def one_run_def mk_run_def List.map_filter_simps)
  have rows: "plot_throughput_vs_requests sample_t_ppf one_run =
      [agg_group sample_t_ppf one_run (''baseline'', 100)]"
    "write_results_md sample_t_ppf one_run =
      [summary_group sample_t_ppf one_run (''baseline'', 100)]"
    by (simp_all add: plot_throughput_vs_requests_def write_results_md_def k)
  show ?thesis
    unfolding rows
    by (simp add: agg_group_def summary_group_def group_rows_def one_run_def mk_run_def
        pd_std_def pd_count_def dropna_def List.map_filter_simps Let_def)
qed

subsection \<open>Percentiles by linear interpolation\<close>

lemma lerp_eq: "lerp a b t = a + t * (b - a)"
  by (simp add: lerp_def algebra_simps)

lemma np_percentile_unfold:
  assumes "a \<noteq> []" "0 \<le> p" "p \<le> 100"
    and "v = of_int (int (length (sort a)) - 1) * (p / 100)"
  shows "np_percentile a p =
     Some (lerp (py_index (sort a) (if of_int (int (length (sort a)) - 1) \<le> v then - 1 else \<lfloor>v\<rfloor>))
       (py_index (sort a) (if of_int (int (length (sort a)) - 1) \<le> v then - 1 else \<lfloor>v\<rfloor> + 1))
       (v - of_int (if of_int (int (length (sort a)) - 1) \<le> v then - 1 else \<lfloor>v\<rfloor>)))"
proof -
  have "\<not> (a = [] \<or> p < 0 \<or> 100 < p)" using assms by simp
  then show ?thesis
    unfolding np_percentile_def Let_def assms(4) by (rule if_not_P)
qed

lemma np_percentile_spec:
  assumes "a \<noteq> []" "0 \<le> p" "p \<le> 100"
  shows "np_percentile a p = Some (spec_percentile (sort a) p)"
proof -
  define arr where "arr = sort a"
  define n where "n = length arr"
  define v :: rat where "v = of_int (int n - 1) * (p / 100)"
  have n: "0 < n" using assms(1) by (simp add: n_def arr_def)
  have rank: "p / 100 * of_nat (n - 1) = v"
    using n by (simp add: v_def of_nat_diff)
  have v0: "0 \<le> v" using assms(2) n by (simp add: v_def)
  have vn: "v \<le> of_int (int n - 1)"
  proof -
    have "p / 100 \<le> 1" using assms(3) by simp
    then have "of_int (int n - 1) * (p / 100) \<le> of_int (int n - 1) * 1"
      using n by (intro mult_left_mono) simp_all
    then show ?thesis by (simp add: v_def)
  qed
  have unf: "np_percentile a p =
     Some (lerp (py_index arr (if of_int (int n - 1) \<le> v then - 1 else \<lfloor>v\<rfloor>))
       (py_index arr (if of_int (int n - 1) \<le> v then - 1 else \<lfloor>v\<rfloor> + 1))
       (v - of_int (if of_int (int n - 1) \<le> v then - 1 else \<lfloor>v\<rfloor>)))"
    unfolding arr_def n_def
    by (rule np_percentile_unfold [OF assms]) (simp add: v_def n_def arr_def)
  have spec: "spec_percentile arr p =
      arr ! nat \<lfloor>v\<rfloor> + (v - of_int \<lfloor>v\<rfloor>) * (arr ! nat \<lceil>v\<rceil> - arr ! nat \<lfloor>v\<rfloor>)"
    unfolding spec_percentile_def Let_def n_def [symmetric] rank ..
  show ?thesis
  proof (cases "of_int (int n - 1) \<le> v")
    case True
    then have v: "v = of_int (int n - 1)" using vn by simp
    have fl: "\<lfloor>v\<rfloor> = int n - 1" "\<lceil>v\<rceil> = int n - 1" by (simp_all add: v)
    have last: "py_index arr (- 1) = arr ! nat (int n - 1)"
      by (simp add: py_index_def n_def)
    have "np_percentile a p = Some (arr ! nat (int n - 1))"
      unfolding unf using True by (simp add: lerp_eq last)
    moreover have "spec_percentile arr p = arr ! nat (int n - 1)"
      unfolding spec fl by simp
    ultimately show ?thesis by (simp add: arr_def)
  next
    case False
    have fl0: "0 \<le> \<lfloor>v\<rfloor>" using v0 by simp
    have ix: "py_index arr \<lfloor>v\<rfloor> = arr ! nat \<lfloor>v\<rfloor>"
      "py_index arr (\<lfloor>v\<rfloor> + 1) = arr ! nat (\<lfloor>v\<rfloor> + 1)"
    proof -
      have "\<not> \<lfloor>v\<rfloor> < 0" "\<not> \<lfloor>v\<rfloor> + 1 < 0" using fl0 by linarith+
      then show "py_index arr \<lfloor>v\<rfloor> = arr ! nat \<lfloor>v\<rfloor>"
        "py_index arr (\<lfloor>v\<rfloor> + 1) = arr ! nat (\<lfloor>v\<rfloor> + 1)"
        unfolding py_index_def by simp_all
    qed
    have np: "np_percentile a p =
        Some (arr ! nat \<lfloor>v\<rfloor> + (v - of_int \<lfloor>v\<rfloor>) * (arr ! nat (\<lfloor>v\<rfloor> + 1) - arr ! nat \<lfloor>v\<rfloor>))"
      unfolding unf using False by (simp add: lerp_eq ix)
    show ?thesis
    proof (cases "v = of_int \<lfloor>v\<rfloor>")
      case True
      then have "spec_percentile arr p = arr ! nat \<lfloor>v\<rfloor>"
        unfolding spec by simp
      with np True show ?thesis by (simp add: arr_def)
    next
      case nonint: False
      then have "\<lceil>v\<rceil> = \<lfloor>v\<rfloor> + 1"
        by (simp add: ceiling_altdef)
      then have "spec_percentile arr p =
          arr ! nat \<lfloor>v\<rfloor> + (v - of_int \<lfloor>v\<rfloor>) * (arr ! nat (\<lfloor>v\<rfloor> + 1) - arr ! nat \<lfloor>v\<rfloor>)"
        unfolding spec by simp
      with np show ?thesis by (simp add: arr_def)
    qed
  qed
qed

lemma p50_one_to_ten: "np_percentile [1, 2, 3, 4, 5, 6, 7, 8, 9, 10] 50 = Some (11 / 2)"
  by code_simp

lemma p90_one_to_ten: "np_percentile [1, 2, 3, 4, 5, 6, 7, 8, 9, 10] 90 = Some (91 / 10)"
  by code_simp

text \<open>
  C6. For every non-empty sample array and every \<open>p\<close> from 0 to 100, the percentile
  that \<open>np.percentile\<close> computes is the linear interpolation, on the sorted array of
  length \<open>n\<close>, at rank \<open>p / 100 * (n - 1)\<close> between the elements at the floor and the
  ceiling of the rank; for the array 1, ..., 10 the 50th percentile is 5.5 and the 90th
  is 9.1.
\<close>

theorem percentile_linear_interpolation:
  "(a \<noteq> [] \<and> 0 \<le> p \<and> p \<le> 100 \<longrightarrow> np_percentile a p = Some (spec_percentile (sort a) p))
   \<and> np_percentile [1, 2, 3, 4, 5, 6, 7, 8, 9, 10] 50 = Some (11 / 2)
   \<and> np_percentile [1, 2, 3, 4, 5, 6, 7, 8, 9, 10] 90 = Some (91 / 10)"
  using np_percentile_spec [of a p] p50_one_to_ten p90_one_to_ten by blast

lemma sort_shuffled:
  "sort [10, 2, 7, 4, 5, 6, 3, 8, 9, 1 :: rat] = [1, 2, 3, 4, 5, 6, 7, 8, 9, 10]"
  by code_simp

lemma spec_p90: "spec_percentile [1, 2, 3, 4, 5, 6, 7, 8, 9, 10] 90 = 91 / 10"
  by code_simp

theorem percentile_linear_interpolation_witness:
  "np_percentile [10, 2, 7, 4, 5, 6, 3, 8, 9, 1] 90
     = Some (spec_percentile [1, 2, 3, 4, 5, 6, 7, 8, 9, 10] 90)
   \<and> spec_percentile [1, 2, 3, 4, 5, 6, 7, 8, 9, 10] 90 = 91 / 10"
  using percentile_linear_interpolation [of "[10, 2, 7, 4, 5, 6, 3, 8, 9, 1]" 90]
    sort_shuffled spec_p90
  by simp

subsection \<open>Splitting file names and grouping the files\<close>

lemma split_on_nonempty: "split_on c s \<noteq> []"
  by (induction s) (auto split: list.splits)

lemma split_on_no_sep: "part \<in> set (split_on c s) \<Longrightarrow> c \<notin> set part"
proof (induction s arbitrary: part)
  case Nil
  then show ?case by simp
next
  case (Cons x s)
  then show ?case
    by (cases "split_on c s") (auto split: if_splits)
qed

lemma split_on_id: "c \<notin> set s \<Longrightarrow> split_on c s = [s]"
  by (induction s) auto

lemma split_on_join: "c \<notin> set a \<Longrightarrow> split_on c (a @ c # b) = a # split_on c b"
  by (induction a) (auto split: list.splits)

lemma split_on_one: "split_on c k = [b] \<Longrightarrow> k = b"
proof (induction k arbitrary: b)
  case Nil
  then show ?case by simp
next
  case (Cons x k)
  then show ?case
    using split_on_nonempty [of c k]
    by (cases "split_on c k") (auto split: if_splits)
qed

lemma split_on_two: "split_on c k = [a, b] \<Longrightarrow> k = a @ c # b"
proof (induction k arbitrary: a)
  case Nil
  then show ?case by simp
next
  case (Cons x k)
  show ?case
  proof (cases "x = c")
    case True
    then have "a = []" "split_on c k = [b]" using Cons.prems by simp_all
    then show ?thesis using True split_on_one [of c k b] by simp
  next
    case False
    then obtain part where "split_on c k = [part, b]" "a = x # part"
      using Cons.prems by (cases "split_on c k") auto
    then show ?thesis using Cons.IH [of part] by simp
  qed
qed

lemma split_on_key:
  assumes "CHR ''_'' \<notin> set s" "CHR ''_'' \<notin> set r"
  shows "split_on CHR ''_'' (key_of (s, r)) = [s, r]"
  using assms split_on_join [of "CHR ''_''" s r] by (simp add: key_of_def split_on_id)

lemma group_key_no_sep:
  assumes "group_key p = Some (s, r)"
  shows "CHR ''_'' \<notin> set s \<and> CHR ''_'' \<notin> set r"
proof -
  let ?parts = "split_on CHR ''_'' (basename p)"
  from assms have len: "4 \<le> length ?parts" and s: "s = ?parts ! 0" and r: "r = ?parts ! 1"
    by (auto simp: group_key_def Let_def split: if_splits)
  have l0: "0 < length ?parts" and l1: "1 < length ?parts" using len by linarith+
  have "?parts ! 0 \<in> set ?parts" by (rule nth_mem [OF l0])
  moreover have "?parts ! 1 \<in> set ?parts" by (rule nth_mem [OF l1])
  ultimately have "?parts ! 0 \<in> set ?parts" "?parts ! 1 \<in> set ?parts" .
  then have "s \<in> set ?parts" "r \<in> set ?parts" using s r by simp_all
  then show ?thesis using split_on_no_sep by blast
qed

lemma key_of_inj:
  assumes "key_of (s, r) = key_of (s', r')"
    and "CHR ''_'' \<notin> set s" "CHR ''_'' \<notin> set r" "CHR ''_'' \<notin> set s'" "CHR ''_'' \<notin> set r'"
  shows "s = s' \<and> r = r'"
proof -
  have "[s, r] = split_on CHR ''_'' (key_of (s, r))"
    by (rule split_on_key [OF assms(2,3), symmetric])
  also have "\<dots> = split_on CHR ''_'' (key_of (s', r'))"
    by (simp only: assms(1))
  also have "\<dots> = [s', r']"
    by (rule split_on_key [OF assms(4,5)])
  finally show ?thesis by simp
qed

lemma setdefault_extend_map_of:
  "map_of (setdefault_extend d k vs) k' =
     (if k' = k then Some ((case map_of d k of None \<Rightarrow> [] | Some old \<Rightarrow> old) @ vs)
      else map_of d k')"
  by (induction d k vs rule: setdefault_extend.induct) auto

lemma setdefault_extend_keys:
  "set (map fst (setdefault_extend d k vs)) = insert k (set (map fst d))"
  by (induction d k vs rule: setdefault_extend.induct) auto

lemma setdefault_extend_distinct:
  "distinct (map fst d) \<Longrightarrow> distinct (map fst (setdefault_extend d k vs))"
proof (induction d k vs rule: setdefault_extend.induct)
  case (1 k vs)
  then show ?case by simp
next
  case (2 k' old d k vs)
  then show ?case using setdefault_extend_keys [of d k vs] by auto
qed

lemma group_step_cases:
  "group_step groups path =
     (case group_key path of
        None \<Rightarrow> groups
      | Some sr \<Rightarrow> setdefault_extend groups (key_of sr) [path])"
  by (simp add: group_step_def group_key_def key_of_def setdefault_append_def Let_def)

lemma group_step_distinct:
  "distinct (map fst acc) \<Longrightarrow> distinct (map fst (group_step acc p))"
  by (simp add: group_step_cases setdefault_extend_distinct split: option.splits)

lemma group_loop_distinct:
  "distinct (map fst acc) \<Longrightarrow> distinct (map fst (foldl group_step acc paths))"
  by (induction paths arbitrary: acc) (simp_all add: group_step_distinct)

lemma keyed_loop_map_of:
  "map_of (foldl (\<lambda>d p. case kf p of None \<Rightarrow> d | Some k \<Rightarrow> setdefault_extend d k [p]) acc paths) k =
     (let fs = filter (\<lambda>p. kf p = Some k) paths in
      case map_of acc k of
        None \<Rightarrow> if fs = [] then None else Some fs
      | Some old \<Rightarrow> Some (old @ fs))"
proof (induction paths arbitrary: acc)
  case Nil
  then show ?case by (simp split: option.splits)
next
  case (Cons p paths)
  show ?case
    by (cases "kf p")
      (auto simp: Cons.IH setdefault_extend_map_of Let_def split: option.splits)
qed

lemma group_loop_map_of:
  "map_of (foldl group_step acc paths) k =
     (let fs = filter (\<lambda>p. map_option key_of (group_key p) = Some k) paths in
      case map_of acc k of
        None \<Rightarrow> if fs = [] then None else Some fs
      | Some old \<Rightarrow> Some (old @ fs))"
proof -
  have "group_step =
      (\<lambda>d p. case map_option key_of (group_key p) of
                None \<Rightarrow> d
              | Some k \<Rightarrow> setdefault_extend d k [p])"
    by (intro ext) (simp add: group_step_cases split: option.splits)
  then show ?thesis
    using keyed_loop_map_of [of "\<lambda>p. map_option key_of (group_key p)" acc paths k]
    by simp
qed

lemma group_paths_entry:
  assumes "(k, files) \<in> set (group_paths paths)"
  shows "\<exists>s r. k = key_of (s, r) \<and> CHR ''_'' \<notin> set s \<and> CHR ''_'' \<notin> set r
           \<and> files = files_of paths s r \<and> files \<noteq> []"
proof -
  have d: "distinct (map fst (group_paths paths))"
    using group_loop_distinct [of "[]" paths] by (simp add: group_paths_def)
  then have "map_of (group_paths paths) k = Some files" using assms by simp
  then have fs: "files = filter (\<lambda>p. map_option key_of (group_key p) = Some k) paths"
      and ne: "files \<noteq> []"
    using group_loop_map_of [of "[]" paths k]
    by (auto simp: group_paths_def Let_def split: if_splits)
  from ne fs obtain p where "p \<in> set paths" "map_option key_of (group_key p) = Some k"
    by (metis (mono_tags, lifting) filter_False)
  then obtain s r where sr: "group_key p = Some (s, r)" "k = key_of (s, r)" by auto
  have ns: "CHR ''_'' \<notin> set s \<and> CHR ''_'' \<notin> set r" using group_key_no_sep [OF sr(1)] .
  have "(map_option key_of (group_key q) = Some k) = (group_key q = Some (s, r))" for q
  proof (cases "group_key q")
    case None
    then show ?thesis by simp
  next
    case (Some sr')
    obtain s' r' where sr': "sr' = (s', r')" by (cases sr')
    have "CHR ''_'' \<notin> set s' \<and> CHR ''_'' \<notin> set r'"
      using group_key_no_sep [of q s' r'] Some sr' by simp
    then show ?thesis using Some sr' sr(2) ns key_of_inj [of s' r' s r] by auto
  qed
  then have "files = files_of paths s r" using fs by (simp add: files_of_def)
  with sr ns ne show ?thesis by blast
qed

lemma by_req_extend_keys:
  "fst ` set (by_req_extend d req scen files) = insert req (fst ` set d)"
  by (induction d req scen files rule: by_req_extend.induct) auto

lemma by_req_extend_ok:
  "by_req_ok d \<Longrightarrow> by_req_ok (by_req_extend d req scen files)"
proof (induction d req scen files rule: by_req_extend.induct)
  case (1 req scen files)
  then show ?case by (simp add: by_req_ok_def)
next
  case (2 r scen_map d req scen files)
  show ?case
  proof (cases "r = req")
    case True
    then show ?thesis
      using "2.prems" setdefault_extend_distinct [of scen_map scen files]
      by (auto simp: by_req_ok_def)
  next
    case False
    then have "by_req_ok (by_req_extend d req scen files)"
      using 2 by (auto simp: by_req_ok_def)
    then show ?thesis
      using False "2.prems" by_req_extend_keys [of d req scen files]
      by (auto simp: by_req_ok_def)
  qed
qed

lemma by_req_extend_keys2:
  "keys2 (by_req_extend d req scen files) = insert (req, scen) (keys2 d)"
proof (induction d req scen files rule: by_req_extend.induct)
  case (1 req scen files)
  then show ?case by (auto simp: keys2_def)
next
  case (2 r scen_map d req scen files)
  show ?case
  proof (cases "r = req")
    case True
    have "fst ` set (setdefault_extend scen_map scen files) = insert scen (fst ` set scen_map)"
      using setdefault_extend_keys [of scen_map scen files] by simp
    then show ?thesis using True by (auto simp: keys2_def)
  next
    case False
    have "keys2 ((r, scen_map) # d') = {(r, s) | s. s \<in> fst ` set scen_map} \<union> keys2 d'" for d'
      by (auto simp: keys2_def)
    then show ?thesis using False 2 by auto
  qed
qed

lemma nested_lookup_Cons:
  "nested_lookup ((r', m) # d) r s = (if r = r' then map_of m s else nested_lookup d r s)"
  by (simp add: nested_lookup_def)

lemma by_req_extend_lookup:
  "nested_lookup (by_req_extend d req scen files) r s =
     (if r = req \<and> s = scen then
        Some ((case nested_lookup d req scen of None \<Rightarrow> [] | Some old \<Rightarrow> old) @ files)
      else nested_lookup d r s)"
proof (induction d req scen files rule: by_req_extend.induct)
  case (1 req scen files)
  then show ?case by (simp add: nested_lookup_def)
next
  case (2 r' scen_map d req scen files)
  show ?case
  proof (cases "r' = req")
    case True
    then show ?thesis
      by (simp add: nested_lookup_Cons setdefault_extend_map_of)
  next
    case False
    then have ih: "nested_lookup (by_req_extend d req scen files) r s =
       (if r = req \<and> s = scen then
          Some ((case nested_lookup d req scen of None \<Rightarrow> [] | Some old \<Rightarrow> old) @ files)
        else nested_lookup d r s)"
      using 2 by simp
    show ?thesis
      using False ih by (auto simp: nested_lookup_Cons)
  qed
qed

lemma regroup_Cons:
  "regroup B ((k, files) # gs) = Inr B' \<Longrightarrow>
     \<exists>scen req. split_on CHR ''_'' k = [scen, req]
       \<and> regroup (by_req_extend B req scen files) gs = Inr B'"
  by (auto split: list.splits)

lemma regroup_returns:
  assumes "\<forall>k\<in>fst ` set gs. \<exists>s r. k = key_of (s, r) \<and> CHR ''_'' \<notin> set s \<and> CHR ''_'' \<notin> set r"
  shows "\<exists>B'. regroup B gs = Inr B'"
  using assms
proof (induction gs arbitrary: B)
  case Nil
  then show ?case by simp
next
  case (Cons g gs)
  obtain k files where g: "g = (k, files)" by (cases g)
  then obtain s r where "split_on CHR ''_'' k = [s, r]"
    using Cons.prems split_on_key by fastforce
  then show ?case using Cons.IH [of "by_req_extend B r s files"] Cons.prems g by simp
qed

lemma regroup_ok: "regroup B gs = Inr B' \<Longrightarrow> by_req_ok B \<Longrightarrow> by_req_ok B'"
proof (induction gs arbitrary: B)
  case Nil
  then show ?case by simp
next
  case (Cons g gs)
  obtain k files where g: "g = (k, files)" by (cases g)
  then obtain scen req where "regroup (by_req_extend B req scen files) gs = Inr B'"
    using Cons.prems(1) regroup_Cons by blast
  then show ?case using Cons.IH Cons.prems(2) by_req_extend_ok by blast
qed

lemma regroup_keys2:
  assumes "regroup B gs = Inr B'"
    and "\<forall>(r, s)\<in>keys2 B. CHR ''_'' \<notin> set r \<and> CHR ''_'' \<notin> set s"
  shows "\<forall>(r, s)\<in>keys2 B'. CHR ''_'' \<notin> set r \<and> CHR ''_'' \<notin> set s"
  using assms
proof (induction gs arbitrary: B)
  case Nil
  then show ?case by simp
next
  case (Cons g gs)
  obtain k files where g: "g = (k, files)" by (cases g)
  then obtain scen req where sp: "split_on CHR ''_'' k = [scen, req]"
      and rec: "regroup (by_req_extend B req scen files) gs = Inr B'"
    using Cons.prems(1) regroup_Cons by blast
  have "scen \<in> set (split_on CHR ''_'' k)" "req \<in> set (split_on CHR ''_'' k)"
    using sp by simp_all
  then have "CHR ''_'' \<notin> set scen" "CHR ''_'' \<notin> set req"
    using split_on_no_sep by blast+
  then have "\<forall>(r, s)\<in>keys2 (by_req_extend B req scen files).
      CHR ''_'' \<notin> set r \<and> CHR ''_'' \<notin> set s"
    using Cons.prems(2) by (simp add: by_req_extend_keys2)
  then show ?case using Cons.IH [OF rec] by blast
qed

lemma regroup_lookup:
  assumes "regroup B gs = Inr B'" and "distinct (map fst gs)"
    and "CHR ''_'' \<notin> set s" "CHR ''_'' \<notin> set r"
  shows "nested_lookup B' r s =
     (case map_of gs (key_of (s, r)) of
        None \<Rightarrow> nested_lookup B r s
      | Some fs \<Rightarrow> Some ((case nested_lookup B r s of None \<Rightarrow> [] | Some old \<Rightarrow> old) @ fs))"
  using assms(1,2)
proof (induction gs arbitrary: B)
  case Nil
  then show ?case by simp
next
  case (Cons g gs)
  obtain k files where g: "g = (k, files)" by (cases g)
  then obtain scen req where sp: "split_on CHR ''_'' k = [scen, req]"
      and rec: "regroup (by_req_extend B req scen files) gs = Inr B'"
    using Cons.prems(1) regroup_Cons by blast
  have k: "k = key_of (scen, req)" using split_on_two [OF sp] by (simp add: key_of_def)
  have d: "distinct (map fst gs)" and notin: "k \<notin> fst ` set gs"
    using Cons.prems(2) g by simp_all
  note ih = Cons.IH [OF rec d]
  show ?case
  proof (cases "key_of (s, r) = k")
    case True
    then have "split_on CHR ''_'' k = [s, r]" using split_on_key [OF assms(3,4)] by simp
    then have eq: "scen = s" "req = r" using sp by simp_all
    have "map_of gs k = None" using notin by (simp add: map_of_eq_None_iff)
    then show ?thesis using ih True eq g by (simp add: by_req_extend_lookup)
  next
    case False
    then have "\<not> (r = req \<and> s = scen)" using k by auto
    then have "nested_lookup (by_req_extend B req scen files) r s = nested_lookup B r s"
      by (auto simp: by_req_extend_lookup)
    then show ?thesis using ih False g by (simp split: option.splits)
  qed
qed

lemma by_req_entry_lookup:
  assumes "by_req_ok d" "(r, m) \<in> set d" "(s, fs) \<in> set m"
  shows "nested_lookup d r s = Some fs"
proof -
  have "map_of d r = Some m" using assms(1,2) by (simp add: by_req_ok_def)
  moreover have "distinct (map fst m)" using assms(1,2) by (auto simp: by_req_ok_def)
  then have "map_of m s = Some fs" using assms(3) by simp
  ultimately show ?thesis by (simp add: nested_lookup_def)
qed

lemma by_req_of_paths:
  "\<exists>B. regroup [] (group_paths paths) = Inr B
     \<and> (\<forall>(req, scen_map)\<in>set B. \<forall>(scen, files)\<in>set scen_map.
           files = files_of paths scen req \<and> files \<noteq> [])"
proof -
  let ?gs = "group_paths paths"
  have wf: "\<forall>k\<in>fst ` set ?gs. \<exists>s r. k = key_of (s, r) \<and> CHR ''_'' \<notin> set s \<and> CHR ''_'' \<notin> set r"
    using group_paths_entry by fastforce
  then obtain B where B: "regroup [] ?gs = Inr B" using regroup_returns by blast
  have ok: "by_req_ok B" using regroup_ok [OF B] by (simp add: by_req_ok_def)
  have ks: "\<forall>(r, s)\<in>keys2 B. CHR ''_'' \<notin> set r \<and> CHR ''_'' \<notin> set s"
    using regroup_keys2 [OF B] by (simp add: keys2_def)
  have d: "distinct (map fst ?gs)"
    using group_loop_distinct [of "[]" paths] by (simp add: group_paths_def)
  have "files = files_of paths scen req \<and> files \<noteq> []"
    if "(req, scen_map) \<in> set B" "(scen, files) \<in> set scen_map" for req scen_map scen files
  proof -
    have "(req, scen) \<in> keys2 B" using that by (force simp: keys2_def)
    then have ns: "CHR ''_'' \<notin> set scen" "CHR ''_'' \<notin> set req" using ks by auto
    have "nested_lookup B req scen = Some files"
      using by_req_entry_lookup [OF ok that] .
    then have "map_of ?gs (key_of (scen, req)) = Some files"
      using regroup_lookup [OF B d ns] by (simp add: nested_lookup_def split: option.splits)
    then have "(key_of (scen, req), files) \<in> set ?gs" by (rule map_of_SomeD)
    then obtain s r where sr: "key_of (scen, req) = key_of (s, r)"
        "CHR ''_'' \<notin> set s" "CHR ''_'' \<notin> set r"
        "files = files_of paths s r" "files \<noteq> []"
      using group_paths_entry by blast
    then have "scen = s \<and> req = r" using key_of_inj ns by blast
    with sr show ?thesis by simp
  qed
  with B show ?thesis by blast
qed

subsection \<open>The percentile table\<close>

lemma map_filter_Nil_iff: "List.map_filter f xs = [] \<longleftrightarrow> (\<forall>x\<in>set xs. f x = None)"
  by (induction xs) (auto split: option.splits)

lemma scenario_row_merged:
  "scenario_row read req scen files =
     (if list_all (\<lambda>f. read f = None) files then None
      else Some (merged_row read req scen files))"
  by (simp add: scenario_row_def merged_row_def Let_def map_filter_Nil_iff list_all_iff)

lemma rows_of_loop:
  "List.map_filter (\<lambda>(scen, files). scenario_row read req scen files) scen_map
     = rows_of read (req, scen_map)"
proof -
  have "(\<lambda>(scen, files). scenario_row read req scen files)
      = (\<lambda>sf. if list_all (\<lambda>f. read f = None) (snd sf) then None
               else Some (merged_row read req (fst sf) (snd sf)))"
    by (intro ext) (simp add: scenario_row_merged split: prod.splits)
  then show ?thesis unfolding rows_of_def fst_conv snd_conv by simp
qed

lemma read_all_cases:
  "read_all read fs =
     (if list_all (\<lambda>f. read f \<noteq> None) fs then Inr (concat (List.map_filter read fs))
      else Inl ReadError)"
  by (induction fs) (auto split: option.splits)

lemma readable_concat:
  "readable read (req, scen_map) = list_all (\<lambda>f. read f \<noteq> None) (concat (map snd scen_map))"
  by (induction scen_map) (simp_all add: readable_def)

lemma tail_xmax_cases:
  "tail_xmax read scen_map =
     (if readable read (req, scen_map) then
        Inr (np_percentile (concat (List.map_filter read (concat (map snd scen_map)))) (999 / 10))
      else Inl ReadError)"
  by (simp add: tail_xmax_def read_all_cases readable_concat [of read req scen_map])

lemma reached_Cons:
  "reached read (entry # d) =
     (if readable read entry then entry # reached read d else [entry])"
  by (simp add: reached_def)

lemma reached_all: "list_all (readable read) d \<Longrightarrow> reached read d = d"
  by (induction d) (simp_all add: reached_Cons, simp add: reached_def)

lemma req_loop_state:
  "req_loop read acc d =
     (acc @ concat (map (rows_of read) (reached read d)),
      if list_all (readable read) d then None else Some ReadError)"
proof (induction d arbitrary: acc)
  case Nil
  then show ?case by (simp add: reached_def)
next
  case (Cons entry d)
  obtain req scen_map where e: "entry = (req, scen_map)" by (cases entry)
  show ?case
  proof (cases "readable read (req, scen_map)")
    case True
    then show ?thesis
      using Cons.IH [of "acc @ rows_of read (req, scen_map)"]
      by (simp add: e rows_of_loop tail_xmax_cases [of read scen_map req] reached_Cons)
  next
    case False
    then show ?thesis
      by (simp add: e rows_of_loop tail_xmax_cases [of read scen_map req] reached_Cons)
  qed
qed

lemma key_filter:
  assumes "CHR ''_'' \<notin> set s" "CHR ''_'' \<notin> set r"
  shows "(map_option key_of (group_key q) = Some (key_of (s, r))) = (group_key q = Some (s, r))"
proof (cases "group_key q")
  case None
  then show ?thesis by simp
next
  case (Some sr')
  obtain s' r' where sr': "sr' = (s', r')" by (cases sr')
  have "CHR ''_'' \<notin> set s' \<and> CHR ''_'' \<notin> set r'"
    using group_key_no_sep [of q s' r'] Some sr' by simp
  then show ?thesis using Some sr' assms key_of_inj [of s' r' s r] by auto
qed

lemma nested_lookup_entry:
  assumes "nested_lookup d r s = Some fs"
  shows "\<exists>m. (r, m) \<in> set d \<and> (s, fs) \<in> set m"
proof -
  from assms obtain m where m: "map_of d r = Some m" "map_of m s = Some fs"
    by (auto simp: nested_lookup_def split: option.splits)
  then have "(r, m) \<in> set d" "(s, fs) \<in> set m" by (auto dest: map_of_SomeD)
  then show ?thesis by blast
qed

lemma by_req_complete:
  assumes B: "regroup [] (group_paths paths) = Inr B"
    and p: "p \<in> set paths" "group_key p = Some (scen, req)"
  shows "\<exists>scen_map. (req, scen_map) \<in> set B \<and> (scen, files_of paths scen req) \<in> set scen_map"
proof -
  let ?gs = "group_paths paths"
  have ns: "CHR ''_'' \<notin> set scen" "CHR ''_'' \<notin> set req"
    using group_key_no_sep [OF p(2)] by simp_all
  have d: "distinct (map fst ?gs)"
    using group_loop_distinct [of "[]" paths] by (simp add: group_paths_def)
  have fs: "filter (\<lambda>q. map_option key_of (group_key q) = Some (key_of (scen, req))) paths
      = files_of paths scen req"
    unfolding files_of_def by (rule filter_cong [OF refl]) (rule key_filter [OF ns])
  have ne: "files_of paths scen req \<noteq> []"
    using p by (auto simp: files_of_def filter_empty_conv)
  have "map_of (foldl group_step [] paths) (key_of (scen, req)) =
      (case map_of [] (key_of (scen, req)) of
         None \<Rightarrow> if files_of paths scen req = [] then None
                 else Some (files_of paths scen req)
       | Some old \<Rightarrow> Some (old @ files_of paths scen req))"
    using group_loop_map_of [of "[]" paths "key_of (scen, req)"]
    unfolding Let_def fs .
  then have "map_of ?gs (key_of (scen, req)) = Some (files_of paths scen req)"
    using ne by (simp add: group_paths_def)
  then have "nested_lookup B req scen = Some (files_of paths scen req)"
    using regroup_lookup [OF B d ns] by (simp add: nested_lookup_def)
  then show ?thesis by (rule nested_lookup_entry)
qed

lemma readable_iff:
  assumes B: "regroup [] (group_paths paths) = Inr B"
    and files: "\<forall>(req, scen_map)\<in>set B. \<forall>(scen, files)\<in>set scen_map.
           files = files_of paths scen req \<and> files \<noteq> []"
  shows "list_all (readable read) B \<longleftrightarrow> (\<forall>p\<in>set paths. group_key p \<noteq> None \<longrightarrow> read p \<noteq> None)"
proof
  assume all: "list_all (readable read) B"
  show "\<forall>p\<in>set paths. group_key p \<noteq> None \<longrightarrow> read p \<noteq> None"
  proof (intro ballI impI)
    fix p assume p: "p \<in> set paths" "group_key p \<noteq> None"
    then obtain scen req where k: "group_key p = Some (scen, req)" by auto
    then obtain scen_map where m: "(req, scen_map) \<in> set B"
        "(scen, files_of paths scen req) \<in> set scen_map"
      using by_req_complete [OF B p(1)] by blast
    have "readable read (req, scen_map)" using all m(1) by (auto simp: list_all_iff)
    then have "list_all (\<lambda>f. read f \<noteq> None) (files_of paths scen req)"
      using m(2) by (auto simp: readable_def list_all_iff)
    moreover have "p \<in> set (files_of paths scen req)" using p(1) k by (simp add: files_of_def)
    ultimately show "read p \<noteq> None" by (auto simp: list_all_iff)
  qed
next
  assume all: "\<forall>p\<in>set paths. group_key p \<noteq> None \<longrightarrow> read p \<noteq> None"
  have "read f \<noteq> None"
    if "(req, scen_map) \<in> set B" "(scen, fs) \<in> set scen_map" "f \<in> set fs"
    for req scen_map scen fs f
  proof -
    have "fs = files_of paths scen req" using files that(1,2) by auto
    then have "f \<in> set paths" "group_key f = Some (scen, req)"
      using that(3) by (simp_all add: files_of_def)
    then show ?thesis using all by auto
  qed
  then show "list_all (readable read) B"
    by (auto simp: list_all_iff readable_def)
qed

lemma rows_of_readable:
  assumes "\<forall>(scen, files)\<in>set scen_map. files \<noteq> []" and "readable read (req, scen_map)"
  shows "rows_of read (req, scen_map)
     = map (\<lambda>(scen, files). merged_row read req scen files) scen_map"
  using assms
proof (induction scen_map)
  case Nil
  then show ?case by (simp add: rows_of_def)
next
  case (Cons sf scen_map)
  obtain scen fs where sf: "sf = (scen, fs)" by (cases sf)
  have fs: "fs \<noteq> []" "list_all (\<lambda>f. read f \<noteq> None) fs"
    using Cons.prems sf by (simp_all add: readable_def)
  then obtain f where "f \<in> set fs" "read f \<noteq> None"
    by (cases fs) (auto simp: list_all_iff)
  then have "\<not> list_all (\<lambda>f. read f = None) fs" by (auto simp: list_all_iff)
  moreover have "rows_of read (req, scen_map)
      = map (\<lambda>(scen, files). merged_row read req scen files) scen_map"
    using Cons by (simp add: readable_def)
  ultimately show ?case
    unfolding rows_of_def fst_conv snd_conv by (simp add: sf)
qed

lemma key_pairs_distinct:
  "by_req_ok d \<Longrightarrow> distinct (concat (map (\<lambda>(r, m). map (\<lambda>(s, fs). (r, s)) m) d))"
proof (induction d)
  case Nil
  then show ?case by simp
next
  case (Cons e d)
  obtain r m where e: "e = (r, m)" by (cases e)
  have ok: "by_req_ok d" and dm: "distinct (map fst m)" and r: "r \<notin> fst ` set d"
    using Cons.prems e by (auto simp: by_req_ok_def)
  have "map (\<lambda>(s, fs). (r, s)) m = map (Pair r) (map fst m)"
    by (simp add: case_prod_unfold)
  then have d1: "distinct (map (\<lambda>(s, fs). (r, s)) m)"
    using dm by (simp add: distinct_map inj_on_def)
  have "fst ` set (concat (map (\<lambda>(r, m). map (\<lambda>(s, fs). (r, s)) m) d)) \<subseteq> fst ` set d"
    by force
  then have d2: "set (map (\<lambda>(s, fs). (r, s)) m)
      \<inter> set (concat (map (\<lambda>(r, m). map (\<lambda>(s, fs). (r, s)) m) d)) = {}"
    using r by force
  show ?case using Cons.IH [OF ok] d1 d2 e by simp
qed

lemma merged_rows_distinct:
  assumes "by_req_ok d"
  shows "distinct (concat (map (\<lambda>(req, scen_map).
      map (\<lambda>(scen, files). merged_row read req scen files) scen_map) d))"
proof -
  let ?rows = "concat (map (\<lambda>(req, scen_map).
      map (\<lambda>(scen, files). merged_row read req scen files) scen_map) d)"
  have "map (\<lambda>row. (request_group row, row_scenario row)) ?rows
      = concat (map (\<lambda>(r, m). map (\<lambda>(s, fs). (r, s)) m) d)"
    by (induction d) (auto simp: merged_row_def Let_def)
  then have "distinct (map (\<lambda>row. (request_group row, row_scenario row)) ?rows)"
    using key_pairs_distinct [OF assms] by simp
  then show ?thesis by (simp add: distinct_map)
qed

lemma drop_duplicates_distinct: "distinct xs \<Longrightarrow> drop_duplicates xs = xs"
proof (induction xs)
  case Nil
  then show ?case by simp
next
  case (Cons x xs)
  then have "filter (\<lambda>y. y \<noteq> x) xs = xs" by (auto simp: filter_id_conv)
  with Cons show ?case by simp
qed

lemma sample_groups:
  "group_paths sample_paths =
     [(''baseline_req100'',
         [''results/baseline_req100_dur30_rep1_latencies.csv'',
          ''results/baseline_req100_dur30_rep2_latencies.csv'']),
      (''baseline_req500'', [''results/baseline_req500_dur30_rep1_latencies.csv''])]"
  by code_simp

lemma sample_regroup: "regroup [] (group_paths sample_paths) = Inr sample_by_req"
  unfolding sample_groups by code_simp

lemma sample_readable:
  "\<forall>p\<in>set sample_paths. group_key p \<noteq> None \<longrightarrow> sample_read p \<noteq> None"
  by code_simp

lemma partial_unreadable:
  "\<not> (\<forall>p\<in>set sample_paths. group_key p \<noteq> None \<longrightarrow> partial_read p \<noteq> None)"
  by code_simp

lemma sample_merged_rows:
  "merged_row sample_read ''req100'' ''baseline''
     [''results/baseline_req100_dur30_rep1_latencies.csv'',
      ''results/baseline_req100_dur30_rep2_latencies.csv'']
   = \<lparr>row_scenario = ''baseline'', request_group = ''req100'',
       p50_ms = Some (13 / 2), p90_ms = Some 25, p95_ms = Some (55 / 2),
       p99_ms = Some (59 / 2)\<rparr>"
  "merged_row sample_read ''req500'' ''baseline''
     [''results/baseline_req500_dur30_rep1_latencies.csv'']
   = \<lparr>row_scenario = ''baseline'', request_group = ''req500'',
       p50_ms = Some 5, p90_ms = Some (29 / 5), p95_ms = Some (59 / 10),
       p99_ms = Some (299 / 50)\<rparr>"
  by code_simp+

lemma partial_rows:
  "concat (map (rows_of partial_read) (reached partial_read sample_by_req))
   = [\<lparr>row_scenario = ''baseline'', request_group = ''req100'',
        p50_ms = Some 2, p90_ms = Some (14 / 5), p95_ms = Some (29 / 10),
        p99_ms = Some (149 / 50)\<rparr>]"
  by code_simp

lemma sample_separate:
  "np_percentile [1, 2, 3] 50 = Some 2 \<and> np_percentile [10, 20, 30] 50 = Some 20
   \<and> np_percentile [1, 2, 3, 10, 20, 30] 50 = Some (13 / 2)"
  by code_simp

text \<open>
  C4. The second grouping of \<open>plot_latency_cdf\<close> always succeeds; its keys are distinct,
  each entry holds exactly the files that share its (scenario, request-size) key, in the
  order of the input, and every file with a key is in the entry of its key. The rows that
  the loop has computed when it ends are, for every request size it reached and every
  scenario of it with a file that was read, the percentiles p50, p90, p95 and p99 of the
  values of all the files of the group that were read, merged into one array: never of
  one file alone. The function returns the table exactly when every file with a key can
  be read, and the table then holds one such row for every group, over the merged values
  of all the files of the group; otherwise it raises when the tail plot reads the files
  again, and no table is written.
\<close>

theorem percentiles_over_merged_files:
  "\<exists>by_req.
     regroup [] (group_paths lat_csv_paths) = Inr by_req
     \<and> by_req_ok by_req
     \<and> (\<forall>(req, scen_map)\<in>set by_req. \<forall>(scen, files)\<in>set scen_map.
           files = files_of lat_csv_paths scen req \<and> files \<noteq> [])
     \<and> (\<forall>p\<in>set lat_csv_paths. \<forall>scen req. group_key p = Some (scen, req) \<longrightarrow>
           (\<exists>scen_map. (req, scen_map) \<in> set by_req
              \<and> (scen, files_of lat_csv_paths scen req) \<in> set scen_map))
     \<and> fst (req_loop read [] by_req) = concat (map (rows_of read) (reached read by_req))
     \<and> plot_latency_cdf read lat_csv_paths =
         (if \<forall>p\<in>set lat_csv_paths. group_key p \<noteq> None \<longrightarrow> read p \<noteq> None then
            Inr (concat (map (\<lambda>(req, scen_map).
              map (\<lambda>(scen, files). merged_row read req scen files) scen_map) by_req))
          else Inl ReadError)"
proof -
  obtain B where B: "regroup [] (group_paths lat_csv_paths) = Inr B"
      and files: "\<forall>(req, scen_map)\<in>set B. \<forall>(scen, files)\<in>set scen_map.
           files = files_of lat_csv_paths scen req \<and> files \<noteq> []"
    using by_req_of_paths [of lat_csv_paths] by blast
  have ok: "by_req_ok B" using regroup_ok [OF B] by (simp add: by_req_ok_def)
  have complete: "\<forall>p\<in>set lat_csv_paths. \<forall>scen req. group_key p = Some (scen, req) \<longrightarrow>
           (\<exists>scen_map. (req, scen_map) \<in> set B
              \<and> (scen, files_of lat_csv_paths scen req) \<in> set scen_map)"
    using by_req_complete [OF B] by blast
  have state: "fst (req_loop read [] B) = concat (map (rows_of read) (reached read B))"
    by (simp add: req_loop_state)
  have result: "plot_latency_cdf read lat_csv_paths =
         (if \<forall>p\<in>set lat_csv_paths. group_key p \<noteq> None \<longrightarrow> read p \<noteq> None then
            Inr (concat (map (\<lambda>(req, scen_map).
              map (\<lambda>(scen, files). merged_row read req scen files) scen_map) B))
          else Inl ReadError)"
  proof (cases "list_all (readable read) B")
    case True
    have "rows_of read e = (case e of (req, scen_map) \<Rightarrow>
        map (\<lambda>(scen, files). merged_row read req scen files) scen_map)"
      if "e \<in> set B" for e
    proof -
      obtain req scen_map where e: "e = (req, scen_map)" by (cases e)
      have "\<forall>(scen, files)\<in>set scen_map. files \<noteq> []" using files that e by auto
      moreover have "readable read (req, scen_map)"
        using True that e by (auto simp: list_all_iff)
      ultimately show ?thesis using rows_of_readable [of scen_map read req] e by simp
    qed
    then have "concat (map (rows_of read) B) = concat (map (\<lambda>(req, scen_map).
        map (\<lambda>(scen, files). merged_row read req scen files) scen_map) B)"
      by (intro arg_cong [where f = concat] map_cong) auto
    moreover have "req_loop read [] B = (concat (map (rows_of read) B), None)"
      using True by (simp add: req_loop_state reached_all)
    ultimately have "plot_latency_cdf read lat_csv_paths =
        Inr (concat (map (\<lambda>(req, scen_map).
          map (\<lambda>(scen, files). merged_row read req scen files) scen_map) B))"
      using B merged_rows_distinct [OF ok, of read]
      by (simp add: plot_latency_cdf_def drop_duplicates_distinct)
    then show ?thesis using True readable_iff [OF B files, of read] by simp
  next
    case False
    then have "plot_latency_cdf read lat_csv_paths = Inl ReadError"
      using B by (simp add: plot_latency_cdf_def req_loop_state)
    then show ?thesis using False readable_iff [OF B files, of read] by simp
  qed
  from B ok files complete state result show ?thesis by blast
qed

theorem percentiles_over_merged_files_witness:
  "regroup [] (group_paths sample_paths) = Inr sample_by_req
   \<and> plot_latency_cdf sample_read sample_paths =
       Inr [\<lparr>row_scenario = ''baseline'', request_group = ''req100'',
              p50_ms = Some (13 / 2), p90_ms = Some 25, p95_ms = Some (55 / 2),
              p99_ms = Some (59 / 2)\<rparr>,
            \<lparr>row_scenario = ''baseline'', request_group = ''req500'',
              p50_ms = Some 5, p90_ms = Some (29 / 5), p95_ms = Some (59 / 10),
              p99_ms = Some (299 / 50)\<rparr>]
   \<and> plot_latency_cdf partial_read sample_paths = Inl ReadError
   \<and> fst (req_loop partial_read [] sample_by_req) =
       [\<lparr>row_scenario = ''baseline'', request_group = ''req100'',
          p50_ms = Some 2, p90_ms = Some (14 / 5), p95_ms = Some (29 / 10),
          p99_ms = Some (149 / 50)\<rparr>]
   \<and> np_percentile [1, 2, 3] 50 = Some 2 \<and> np_percentile [10, 20, 30] 50 = Some 20
   \<and> np_percentile [1, 2, 3, 10, 20, 30] 50 = Some (13 / 2)"
proof -
  obtain B where B: "regroup [] (group_paths sample_paths) = Inr B"
    and res: "plot_latency_cdf sample_read sample_paths =
         (if \<forall>p\<in>set sample_paths. group_key p \<noteq> None \<longrightarrow> sample_read p \<noteq> None then
            Inr (concat (map (\<lambda>(req, scen_map).
              map (\<lambda>(scen, files). merged_row sample_read req scen files) scen_map) B))
          else Inl ReadError)"
    using percentiles_over_merged_files [of sample_paths sample_read] by blast
  have B1: "B = sample_by_req" using B sample_regroup by simp
  have full: "plot_latency_cdf sample_read sample_paths =
       Inr [\<lparr>row_scenario = ''baseline'', request_group = ''req100'',
              p50_ms = Some (13 / 2), p90_ms = Some 25, p95_ms = Some (55 / 2),
              p99_ms = Some (59 / 2)\<rparr>,
            \<lparr>row_scenario = ''baseline'', request_group = ''req500'',
              p50_ms = Some 5, p90_ms = Some (29 / 5), p95_ms = Some (59 / 10),
              p99_ms = Some (299 / 50)\<rparr>]"
    unfolding res B1 using sample_readable
    by (simp add: sample_by_req_def sample_merged_rows)
  obtain B' where B': "regroup [] (group_paths sample_paths) = Inr B'"
    and st: "fst (req_loop partial_read [] B') =
        concat (map (rows_of partial_read) (reached partial_read B'))"
    and res': "plot_latency_cdf partial_read sample_paths =
         (if \<forall>p\<in>set sample_paths. group_key p \<noteq> None \<longrightarrow> partial_read p \<noteq> None then
            Inr (concat (map (\<lambda>(req, scen_map).
              map (\<lambda>(scen, files). merged_row partial_read req scen files) scen_map) B'))
          else Inl ReadError)"
    using percentiles_over_merged_files [of sample_paths partial_read] by blast
  have B2: "B' = sample_by_req" using B' sample_regroup by simp
  have part: "plot_latency_cdf partial_read sample_paths = Inl ReadError"
    unfolding res' using partial_unreadable by simp
  have rows: "fst (req_loop partial_read [] sample_by_req) =
       [\<lparr>row_scenario = ''baseline'', request_group = ''req100'',
          p50_ms = Some 2, p90_ms = Some (14 / 5), p95_ms = Some (29 / 10),
          p99_ms = Some (149 / 50)\<rparr>]"
    using st unfolding B2 partial_rows .
  from sample_regroup full part rows sample_separate show ?thesis by blast
qed

end
